theory Spec2Isabelle
  imports Complex_Main
begin

section \<open>Python values, dictionaries and the configuration\<close>

text \<open>
  The configuration of ClipGen is one Python dictionary. Its entries are either lists of
  dictionaries (the API keys, the models) or plain values. A dictionary is a map from
  field names to values; \<open>d.get(k)\<close> is \<open>d k\<close>, \<open>k in d\<close> is \<open>k \<in> dom d\<close> and
  \<open>d[k] = v\<close> is \<open>d(k \<mapsto> v)\<close>. Numbers (Python ints and floats, among them the
  results of \<open>time.time()\<close>) are rationals, compared and subtracted exactly; strings are
  byte strings.
\<close>

datatype pyval = PNone | PBool bool | PStr string | PNum rat | PTimes "rat list"

text \<open>Python truthiness: what \<open>if v:\<close> tests.\<close>

fun truthy :: "pyval \<Rightarrow> bool" where
  "truthy PNone = False"
| "truthy (PBool b) = b"
| "truthy (PStr s) = (s \<noteq> [])"
| "truthy (PNum n) = (n \<noteq> 0)"
| "truthy (PTimes ts) = (ts \<noteq> [])"

text \<open>Python \<open>==\<close> on these values: \<open>True == 1\<close> and \<open>False == 0\<close> hold.\<close>

fun py_eq :: "pyval \<Rightarrow> pyval \<Rightarrow> bool" where
  "py_eq PNone PNone = True"
| "py_eq (PBool a) (PBool b) = (a = b)"
| "py_eq (PBool a) (PNum n) = (n = (if a then 1 else 0))"
| "py_eq (PNum n) (PBool a) = (n = (if a then 1 else 0))"
| "py_eq (PNum m) (PNum n) = (m = n)"
| "py_eq (PStr s) (PStr t) = (s = t)"
| "py_eq (PTimes xs) (PTimes ys) = (xs = ys)"
| "py_eq _ _ = False"

type_synonym item = "string \<rightharpoonup> pyval"

text \<open>\<open>bool(d.get(k))\<close>: a missing field reads as \<open>None\<close>, which is falsy.\<close>

definition get_truthy :: "item \<Rightarrow> string \<Rightarrow> bool" where
  "get_truthy d k = (case d k of None \<Rightarrow> False | Some v \<Rightarrow> truthy v)"

text \<open>\<open>d.get(k)\<close> as a value: \<open>None\<close> when the field is missing.\<close>

definition get_val :: "item \<Rightarrow> string \<Rightarrow> pyval" where
  "get_val d k = (case d k of None \<Rightarrow> PNone | Some v \<Rightarrow> v)"

datatype cval = CItems "item list" | CVal pyval

type_synonym config = "string \<rightharpoonup> cval"

text \<open>
  \<open>config.get(list_key, [])\<close>. The entry under a list key is a list of dictionaries
  (the declared type of \<open>ConfigListManager.items\<close>); a missing entry reads as the empty
  list. A plain value under a list key is outside the typed configuration and is read
  as the empty list as well.
\<close>

definition items_of :: "config \<Rightarrow> string \<Rightarrow> item list" where
  "items_of c k = (case c k of Some (CItems xs) \<Rightarrow> xs | _ \<Rightarrow> [])"

section \<open>Observable effects and the program state\<close>

text \<open>
  Every call of an injected callback, of the logger and of the external collaborators is
  recorded in a trace, in the order in which the code makes the calls.
\<close>

text \<open>
  Exceptions that reach the \<open>except\<close> handler of \<open>process\<close>: the exception of a failed
  adapter call, known by its text \<open>str(e)\<close>, and the two that the processor itself can
  raise on a malformed key entry.
\<close>

datatype py_exn = ApiError string | TypeError | AttributeError

text \<open>
  The messages. The localized texts of the language file are named by their category,
  the combination and the name of the action are kept, times are left out.
\<close>

datatype final_msg =
    QuotaFriendly | ServiceUnavailable | TimeoutError | ConnectionError
  | InvalidKey | ModelNotFound | RawMsg py_exn

datatype log_msg =
    SwitchedTo pyval | ErrorMsg final_msg | Header string string | EmptyClipboard
  | ExecutionTime | ResultText string

datatype logger_msg =
    LogBusy string string | LogProcessing string string string
  | LogKeyNotSet string string string | LogKeyNotConfigured string string
  | LogCancelled | LogFinal final_msg

text \<open>
  \<open>Generate n\<close> is the start of the worker of attempt \<open>n\<close> (the call of
  \<open>provider.generate\<close>), \<open>SwitchCall\<close> the call of \<open>switch_to_next_key\<close> by the retry
  loop, \<open>GenaiConfigure\<close> the call of \<open>genai.configure\<close>, \<open>SpawnExplanation\<close> the start of
  the thread of the learning mode.
\<close>

datatype event =
    Save | Refresh
  | OnStart | OnSuccess | OnError | OnKeySwitch pyval | OnLog log_msg
  | Logger logger_msg
  | Generate nat | SwitchCall | GenaiConfigure pyval
  | SimulateCopy | SimulatePaste | SetText string | SpawnExplanation

text \<open>
  An entry of \<open>config["hotkeys"]\<close>, with the fields that the processor reads. \<open>name\<close>,
  \<open>combination\<close> and \<open>log_color\<close> are read by subscript and so are always present;
  the others are read with \<open>get\<close>, and a missing one is \<open>False\<close> or \<open>None\<close>.
\<close>

record hotkey =
  hk_name :: string
  combination :: string
  log_color :: string
  use_custom_model :: bool
  custom_provider :: "string option"
  custom_model :: "string option"
  learning_mode :: bool

text \<open>
  The state shared by the list manager, the providers and the processor: the
  configuration dictionary (its hotkey list apart), the generation lock, the slot
  \<open>current_task_event\<close>, the \<open>threading.Event\<close> objects that are set (an event is known
  by the number it got when it was created), which of the callbacks are set, and the
  trace.
\<close>

record state =
  config :: config
  hotkeys :: "hotkey list"
  genai_lock :: bool
  current_task_event :: "nat option"
  events_set :: "nat set"
  next_event :: nat
  has_on_start :: bool
  has_on_success :: bool
  has_on_error :: bool
  has_on_key_switch :: bool
  has_on_log :: bool
  trace :: "event list"

definition emit :: "event list \<Rightarrow> state \<Rightarrow> state" where
  "emit es s = s\<lparr>trace := trace s @ es\<rparr>"

section \<open>ConfigListManager (core/list\_manager.py)\<close>

record manager =
  list_key :: string
  active_field :: string
  default_item :: item

text \<open>Python's \<open>0 <= index < len(items)\<close> on an unbounded integer index.\<close>

definition in_range :: "int \<Rightarrow> 'a list \<Rightarrow> bool" where
  "in_range index xs = (0 \<le> index \<and> index < int (length xs))"

text \<open>\<open>enumerate(items)\<close> with \<open>item["active"] = (i == index)\<close> for every item.\<close>

fun mark_active :: "nat \<Rightarrow> nat \<Rightarrow> item list \<Rightarrow> item list" where
  "mark_active i index [] = []"
| "mark_active i index (d # ds) =
     d(''active'' \<mapsto> PBool (i = index)) # mark_active (Suc i) index ds"

text \<open>\<open>item or self.default_item\<close>: \<open>None\<close> and the empty dictionary are falsy.\<close>

definition effective_item :: "manager \<Rightarrow> item option \<Rightarrow> item" where
  "effective_item m it =
     (case it of None \<Rightarrow> default_item m
      | Some d \<Rightarrow> if d = Map.empty then default_item m else d)"

definition add :: "manager \<Rightarrow> item option \<Rightarrow> state \<Rightarrow> int \<times> state" where
  "add m it s =
     (let new_item = effective_item m it;
          c1 = (if list_key m \<in> dom (config s) then config s
                else (config s)(list_key m \<mapsto> CItems []));
          items = items_of c1 (list_key m);
          new_item' = (if length items = 0 \<and> ''active'' \<in> dom new_item
                       then new_item(''active'' \<mapsto> PBool True) else new_item);
          items' = items @ [new_item'];
          s' = emit [Save, Refresh] (s\<lparr>config := c1(list_key m \<mapsto> CItems items')\<rparr>)
      in (int (length items') - 1, s'))"

definition delete :: "manager \<Rightarrow> int \<Rightarrow> state \<Rightarrow> bool \<times> state" where
  "delete m index s =
     (let items = items_of (config s) (list_key m)
      in if \<not> in_range index items then (False, s)
         else
           let i = nat index;
               was_active = get_truthy (items ! i) ''active'';
               items' = take i items @ drop (Suc i) items;
               items'' = (if was_active \<and> length items' > 0
                          then items'[0 := (items' ! 0)(''active'' \<mapsto> PBool True)]
                          else items')
           in (True, emit [Save, Refresh]
                       (s\<lparr>config := (config s)(list_key m \<mapsto> CItems items'')\<rparr>)))"

definition set_active :: "manager \<Rightarrow> int \<Rightarrow> state \<Rightarrow> bool \<times> state" where
  "set_active m index s =
     (let items = items_of (config s) (list_key m)
      in if \<not> in_range index items then (False, s)
         else
           let i = nat index;
               c' = (if ''active'' \<in> dom (items ! 0)
                     then (config s)(list_key m \<mapsto> CItems (mark_active 0 i items))
                     else
                       let active_name = get_val (items ! i) ''name''
                       in if truthy active_name \<and> active_field m \<in> dom (config s)
                          then (config s)(active_field m \<mapsto> CVal active_name)
                          else config s)
           in (True, emit [Save, Refresh] (s\<lparr>config := c'\<rparr>)))"

text \<open>
  \<open>config[active_field] == old_value\<close>, where the entry may be the item list itself: a
  list of dictionaries equals a value only when both are empty lists.
\<close>

fun cval_eq :: "cval \<Rightarrow> pyval \<Rightarrow> bool" where
  "cval_eq (CVal v) w = py_eq v w"
| "cval_eq (CItems xs) w = (xs = [] \<and> w = PTimes [])"

definition update_field :: "manager \<Rightarrow> int \<Rightarrow> string \<Rightarrow> pyval \<Rightarrow> state \<Rightarrow> bool \<times> state" where
  "update_field m index field v s =
     (let items = items_of (config s) (list_key m)
      in if \<not> in_range index items then (False, s)
         else
           let i = nat index;
               old_value = get_val (items ! i) field;
               c1 = (config s)(list_key m \<mapsto> CItems (items[i := (items ! i)(field \<mapsto> v)]));
               c2 = (if field = ''name'' \<and> active_field m \<in> dom c1
                     then (case c1 (active_field m) of
                             Some cv \<Rightarrow> if cval_eq cv old_value
                                        then c1(active_field m \<mapsto> CVal v) else c1
                           | None \<Rightarrow> c1)
                     else c1)
           in (True, emit [Save] (s\<lparr>config := c2\<rparr>)))"

section \<open>APIProvider (api/base.py, api/gemini.py, api/openai\_compat.py)\<close>

datatype provider = Gemini | OpenAI

fun provider_name :: "provider \<Rightarrow> string" where
  "provider_name Gemini = ''gemini''"
| "provider_name OpenAI = ''openai''"

fun api_keys_key :: "provider \<Rightarrow> string" where
  "api_keys_key Gemini = ''api_keys''"
| "api_keys_key OpenAI = ''openai_api_keys''"

definition is_active :: "item \<Rightarrow> bool" where
  "is_active d = get_truthy d ''active''"

text \<open>
  \<open>for i, key in enumerate(keys): if key.get("active"): current_index = i; break\<close>:
  the index of the first active entry, counting from \<open>i\<close>.
\<close>

fun first_active :: "nat \<Rightarrow> item list \<Rightarrow> nat option" where
  "first_active i [] = None"
| "first_active i (d # ds) = (if is_active d then Some i else first_active (Suc i) ds)"

text \<open>\<open>get_active_key\<close>: the first entry whose \<open>active\<close> field is truthy, or \<open>None\<close>.\<close>

definition get_active_key :: "provider \<Rightarrow> state \<Rightarrow> item option" where
  "get_active_key p s = find is_active (items_of (config s) (api_keys_key p))"


text \<open>
  \<open>reconfigure\<close>: Gemini hands the key to the client library, the OpenAI-compatible
  provider builds a client for every request and does nothing here.
\<close>

fun reconfigure :: "provider \<Rightarrow> pyval \<Rightarrow> state \<Rightarrow> state" where
  "reconfigure Gemini k s = emit [GenaiConfigure k] s"
| "reconfigure OpenAI k s = s"

definition digit :: "nat \<Rightarrow> char" where
  "digit n = ''0123456789'' ! n"

function dec :: "nat \<Rightarrow> string" where
  "dec n = (if n < 10 then [digit n] else dec (n div 10) @ [digit (n mod 10)])"
  by pat_completeness auto
termination
  by (relation "measure id") auto

declare dec.simps [simp del]

definition switch_to_next_key :: "provider \<Rightarrow> state \<Rightarrow> pyval option \<times> state" where
  "switch_to_next_key p s =
     (let keys = items_of (config s) (api_keys_key p)
      in if length keys < 2 then (None, s)
         else
           let current_index = (case first_active 0 keys of None \<Rightarrow> - 1 | Some i \<Rightarrow> int i);
               keys1 = (if current_index \<ge> 0
                        then keys[nat current_index :=
                                    (keys ! nat current_index)(''active'' \<mapsto> PBool False)]
                        else keys);
               next_index = nat ((current_index + 1) mod int (length keys));
               keys2 = keys1[next_index := (keys1 ! next_index)(''active'' \<mapsto> PBool True)];
               s1 = s\<lparr>config := (config s)(api_keys_key p \<mapsto> CItems keys2)\<rparr>;
               new_key = get_val (keys2 ! next_index) ''key'';
               s2 = (if truthy new_key then reconfigure p new_key s1 else s1)
           in (Some (case (keys2 ! next_index) ''name'' of
                       None \<Rightarrow> PStr (''Key '' @ dec (next_index + 1))
                     | Some v \<Rightarrow> v), s2))"

section \<open>TextProcessor (api/processor.py)\<close>

text \<open>
  \<open>_update_key_timestamp\<close>, with the value of \<open>time.time()\<close> as a parameter. The
  dictionary returned by \<open>get_active_key\<close> is the entry of the list itself, so the
  update is written to the list at the index of the first active entry. \<open>append\<close> on a
  value that is not a list raises \<open>AttributeError\<close> before anything is changed.
\<close>

definition update_key_timestamp :: "provider \<Rightarrow> rat \<Rightarrow> state \<Rightarrow> py_exn + state" where
  "update_key_timestamp p now s =
     (let keys = items_of (config s) (api_keys_key p)
      in case first_active 0 keys of
           None \<Rightarrow> Inr s
         | Some i \<Rightarrow>
             let key_data = keys ! i;
                 key_data1 = (if ''usage_timestamps'' \<notin> dom key_data
                              then key_data(''usage_timestamps'' \<mapsto> PTimes []) else key_data)
             in case key_data1 ''usage_timestamps'' of
                  Some (PTimes stamps) \<Rightarrow>
                    Inr (s\<lparr>config := (config s)(api_keys_key p \<mapsto> CItems (keys[i :=
                           key_data1(''usage_timestamps'' \<mapsto>
                             PTimes (filter (\<lambda>ts. now - ts < 86400) (stamps @ [now])))]))\<rparr>)
                | _ \<Rightarrow> Inl AttributeError)"

text \<open>A sequence of calls at the given times, stopping at the first exception.\<close>

fun record_usages :: "provider \<Rightarrow> rat list \<Rightarrow> state \<Rightarrow> py_exn + state" where
  "record_usages p [] s = Inr s"
| "record_usages p (t # ts) s =
     (case update_key_timestamp p t s of Inl e \<Rightarrow> Inl e | Inr s' \<Rightarrow> record_usages p ts s')"

subsection \<open>Strings: \<open>in\<close> and \<open>lower()\<close>\<close>

text \<open>
  Texts are sequences of bytes in UTF-8. A substring of a text in code points is a
  substring of its bytes and the other way round, since no character's encoding starts
  inside another one's.
\<close>

fun starts_with :: "string \<Rightarrow> string \<Rightarrow> bool" where
  "starts_with [] ys = True"
| "starts_with (x # xs) [] = False"
| "starts_with (x # xs) (y # ys) = (x = y \<and> starts_with xs ys)"

text \<open>\<open>needle in haystack\<close> on strings.\<close>

fun contains :: "string \<Rightarrow> string \<Rightarrow> bool" where
  "contains n [] = (n = [])"
| "contains n (c # cs) = (starts_with n (c # cs) \<or> contains n cs)"

text \<open>
  \<open>"YOUR_KEY" in key_data.get("key", "")\<close> for a truthy key value: substring search in
  a string, membership in a list of numbers (never true for a string), and a
  \<open>TypeError\<close> for a value that is no container.
\<close>

fun py_in :: "string \<Rightarrow> pyval \<Rightarrow> py_exn + bool" where
  "py_in n (PStr s) = Inr (contains n s)"
| "py_in n (PTimes ts) = Inr False"
| "py_in n v = Inl TypeError"

text \<open>
  \<open>str.lower()\<close> follows the case table of Unicode, which belongs to the Python runtime
  and not to the repository: it is a parameter of the environment below (\<open>str_lower\<close>).
  On a text of ASCII characters it is the following function, which the examples take
  for it.
\<close>

definition ascii_lower_char :: "char \<Rightarrow> char" where
  "ascii_lower_char c =
     (case map_of (zip ''ABCDEFGHIJKLMNOPQRSTUVWXYZ'' ''abcdefghijklmnopqrstuvwxyz'') c of
        None \<Rightarrow> c | Some l \<Rightarrow> l)"

definition ascii_lower :: "string \<Rightarrow> string" where
  "ascii_lower s = map ascii_lower_char s"

subsection \<open>The environment of one call\<close>

text \<open>
  What the worker thread puts into the result queue: the text returned by the adapter
  (\<open>None\<close> when the backend returned no content), the exception it raised (by its text),
  or nothing at all.
\<close>

datatype outcome = Returned "string option" | Raised string | NoResult

text \<open>
  The worker of one attempt: for how many polls of the orchestrator it is still alive,
  and what it leaves in the queue.
\<close>

record worker =
  alive_polls :: nat
  outcome :: outcome

text \<open>
  The other threads and the backend, as seen by one \<open>process()\<close> call. Time is counted
  in polls of the waiting loop. \<open>backend n\<close> is the adapter call of attempt \<open>n\<close> (prompt,
  text and image are part of it); \<open>cancel_at\<close> is the poll from which on the
  cancellation token of the call reads as set (another thread has called
  \<open>cancel_current\<close>), \<open>time_now\<close> is \<open>time.time()\<close> when the usage is recorded,
  \<open>clipboard\<close> is what \<open>get_content\<close> returns and \<open>str_lower\<close> is \<open>str.lower()\<close>.
\<close>

record env =
  backend :: "nat \<Rightarrow> worker"
  cancel_at :: "nat option"
  time_now :: rat
  clipboard :: "string \<times> bool"
  str_lower :: "string \<Rightarrow> string"

definition is_set_at :: "env \<Rightarrow> nat \<Rightarrow> bool" where
  "is_set_at e t = (case cancel_at e of None \<Rightarrow> False | Some c \<Rightarrow> c \<le> t)"

text \<open>
  \<open>generate\<close> of both providers starts with \<open>if cancel_event.is_set(): raise
  ValueError("Cancelled")\<close>; everything after that is the backend. A worker that finds
  the token set when it starts raises at once, before the backend is called: it has
  ended when the waiting loop looks at it for the first time.
\<close>

definition generate :: "env \<Rightarrow> nat \<Rightarrow> nat \<Rightarrow> worker" where
  "generate e attempt t =
     (if is_set_at e t then \<lparr>alive_polls = 0, outcome = Raised ''Cancelled''\<rparr>
      else backend e attempt)"

text \<open>
  \<open>while worker_thread.is_alive(): if cancel_event.is_set(): return ""; time.sleep(0.1)\<close>,
  started at poll \<open>t\<close> with a worker that is alive for \<open>d\<close> more polls. The result says
  whether the loop returned on cancellation, and the poll at which it ended.
\<close>

fun poll_loop :: "env \<Rightarrow> nat \<Rightarrow> nat \<Rightarrow> bool \<times> nat" where
  "poll_loop e t 0 = (False, t)"
| "poll_loop e t (Suc d) = (if is_set_at e t then (True, t) else poll_loop e (Suc t) d)"

subsection \<open>Reading the text of an exception\<close>

text \<open>The check of the retry loop: \<open>"429" in err_str or "quota" in err_str\<close>.\<close>

definition is_quota :: "env \<Rightarrow> string \<Rightarrow> bool" where
  "is_quota e msg =
     (let err_str = str_lower e msg in contains ''429'' err_str \<or> contains ''quota'' err_str)"

text \<open>
  The translation of the \<open>except\<close> handler, in its order. The texts of the language
  file are named by their category. The texts of \<open>TypeError\<close> and \<open>AttributeError\<close>
  contain none of the searched words and stay as they are.
\<close>

fun classify :: "env \<Rightarrow> py_exn \<Rightarrow> final_msg" where
  "classify e (ApiError m) =
     (let err_str = str_lower e m
      in if contains ''429'' err_str \<and> contains ''quota'' err_str then QuotaFriendly
         else if contains ''503'' err_str \<or> contains ''overloaded'' err_str then ServiceUnavailable
         else if contains ''timeout'' err_str \<or> contains ''deadline'' err_str
                 \<or> contains ''504'' err_str then TimeoutError
         else if contains ''connection'' err_str \<or> contains ''stream removed'' err_str
                 \<or> contains ''failed to connect'' err_str then ConnectionError
         else if contains ''400'' err_str \<and> contains ''api key'' err_str then InvalidKey
         else if contains ''404'' err_str \<and> contains ''not found'' err_str then ModelNotFound
         else RawMsg (ApiError m))"
| "classify e ex = RawMsg ex"

declare classify.simps [simp del]

subsection \<open>Provider and model of a hotkey\<close>

definition global_provider :: "state \<Rightarrow> provider" where
  "global_provider s =
     (case config s ''provider'' of
        Some (CVal v) \<Rightarrow> if py_eq v (PStr ''openai'') then OpenAI else Gemini
      | _ \<Rightarrow> Gemini)"

definition get_provider :: "state \<Rightarrow> hotkey option \<Rightarrow> provider" where
  "get_provider s hk =
     (case hk of
        None \<Rightarrow> global_provider s
      | Some h \<Rightarrow>
          if use_custom_model h
          then (case custom_provider h of
                  None \<Rightarrow> global_provider s
                | Some n \<Rightarrow> if n = [] then global_provider s
                            else if n = ''openai'' then OpenAI else Gemini)
          else global_provider s)"

definition get_model_name :: "hotkey option \<Rightarrow> string option" where
  "get_model_name hk =
     (case hk of
        None \<Rightarrow> None
      | Some h \<Rightarrow>
          if use_custom_model h
          then (case custom_model h of None \<Rightarrow> None | Some m \<Rightarrow> if m = [] then None else Some m)
          else None)"

text \<open>\<open>config.get("auto_switch_api_keys", False)\<close> as a condition.\<close>

definition auto_switch :: "state \<Rightarrow> bool" where
  "auto_switch s =
     (case config s ''auto_switch_api_keys'' of
        None \<Rightarrow> False | Some (CVal v) \<Rightarrow> truthy v | Some (CItems xs) \<Rightarrow> xs \<noteq> [])"

subsection \<open>The retry loop\<close>

record call =
  action_name :: string
  combo :: string
  the_provider :: provider
  model_override :: "string option"

text \<open>
  How the loop is left: by a \<open>return ""\<close> inside it, by \<open>break\<close> with a result, with an
  exception (the \<open>last_error\<close> that is raised after the loop, or one raised in the loop
  body), or because \<open>attempt < max_attempts\<close> no longer holds.
\<close>

datatype loop_result = ReturnedEmpty | Success "string option" | Failed py_exn | Exhausted

datatype step = Continue state | Stop loop_result state

definition when_set :: "bool \<Rightarrow> event \<Rightarrow> event list" where
  "when_set b ev = (if b then [ev] else [])"

text \<open>
  One iteration of \<open>while attempt < max_attempts\<close>, for the attempt with number
  \<open>attempt\<close> (already incremented) started at poll \<open>t\<close>. The call of the adapter and
  the call of \<open>switch_to_next_key\<close> are recorded in the trace.
\<close>

definition attempt_step :: "env \<Rightarrow> call \<Rightarrow> nat \<Rightarrow> nat \<Rightarrow> state \<Rightarrow> step \<times> nat" where
  "attempt_step e cl attempt t s =
     (let p = the_provider cl;
          not_set = (Stop ReturnedEmpty
                       (emit (Logger (LogKeyNotSet (combo cl) (action_name cl) (provider_name p))
                              # when_set (has_on_error s) OnError) s), t)
      in case get_active_key p s of
           None \<Rightarrow> not_set
         | Some key_data \<Rightarrow>
             if \<not> get_truthy key_data ''key'' then not_set
             else
               (case py_in ''YOUR_KEY'' (get_val key_data ''key'') of
                  Inl ex \<Rightarrow> (Stop (Failed ex) s, t)
                | Inr True \<Rightarrow>
                    (Stop ReturnedEmpty
                       (emit (Logger (LogKeyNotConfigured (combo cl) (action_name cl))
                              # when_set (has_on_error s) OnError) s), t)
                | Inr False \<Rightarrow>
                    let s1 = emit [Generate attempt] s;
                        w = generate e attempt t;
                        (cancelled, t') = poll_loop e t (alive_polls w)
                    in if cancelled then (Stop ReturnedEmpty (emit [Logger LogCancelled] s1), t')
                       else
                         (case outcome w of
                            NoResult \<Rightarrow> (Stop ReturnedEmpty s1, t')
                          | Returned r \<Rightarrow> (Stop (Success r) s1, t')
                          | Raised msg \<Rightarrow>
                              if is_quota e msg \<and> auto_switch s1
                              then
                                (case switch_to_next_key p (emit [SwitchCall] s1) of
                                   (None, s2) \<Rightarrow> (Stop (Failed (ApiError msg)) s2, t')
                                 | (Some new_key_name, s2) \<Rightarrow>
                                     if truthy new_key_name
                                     then (Continue
                                             (emit (when_set (has_on_key_switch s2)
                                                      (OnKeySwitch new_key_name)
                                                    @ when_set (has_on_log s2)
                                                        (OnLog (SwitchedTo new_key_name))) s2), t')
                                     else (Stop (Failed (ApiError msg)) s2, t'))
                              else (Stop (Failed (ApiError msg)) s1, t'))))"

function attempt_loop ::
  "env \<Rightarrow> call \<Rightarrow> nat \<Rightarrow> nat \<Rightarrow> nat \<Rightarrow> state \<Rightarrow> loop_result \<times> nat \<times> state" where
  "attempt_loop e cl max_attempts attempt t s =
     (if attempt < max_attempts
      then (case attempt_step e cl (attempt + 1) t s of
              (Continue s', t') \<Rightarrow> attempt_loop e cl max_attempts (attempt + 1) t' s'
            | (Stop r s', t') \<Rightarrow> (r, t', s'))
      else (Exhausted, t, s))"
  by pat_completeness auto
termination
  by (relation "measure (\<lambda>(e, cl, max_attempts, attempt, t, s). max_attempts - attempt)") auto

declare attempt_loop.simps [simp del]

subsection \<open>\<open>process\<close>\<close>

text \<open>The \<open>except Exception\<close> handler: translate, log, return the empty string.\<close>

definition handler :: "env \<Rightarrow> py_exn \<Rightarrow> state \<Rightarrow> string \<times> state" where
  "handler e ex s =
     ([], emit (when_set (has_on_log s) (OnLog (ErrorMsg (classify e ex)))
                @ [Logger (LogFinal (classify e ex))]) s)"

text \<open>
  The first lines of \<open>process\<close>: the hotkey with the name of the action (the first one,
  if any), its key combination for the log, and the provider and model it selects.
\<close>

definition find_hotkey :: "state \<Rightarrow> string \<Rightarrow> hotkey option" where
  "find_hotkey s name = find (\<lambda>h. hk_name h = name) (hotkeys s)"

definition call_of :: "state \<Rightarrow> string \<Rightarrow> call" where
  "call_of s name =
     (let hotkey = find_hotkey s name
      in \<lparr>action_name = name,
          combo = (case hotkey of None \<Rightarrow> [] | Some h \<Rightarrow> combination h),
          the_provider = get_provider s hotkey,
          model_override = get_model_name hotkey\<rparr>)"

text \<open>
  The start of \<open>process\<close>, up to the non-blocking acquisition of the generation lock: a
  new cancellation event is stored in the slot, then the lock is tried. \<open>Inl\<close> is the
  return of a call that found the lock held; \<open>Inr\<close> is the call in flight: its
  parameters, its cancellation event and the state in which it holds the lock.
\<close>

definition enter :: "string \<Rightarrow> state \<Rightarrow> (string \<times> state) + (call \<times> nat \<times> state)" where
  "enter name s =
     (let cl = call_of s name;
          cancel_event = next_event s;
          s1 = s\<lparr>next_event := Suc (next_event s), current_task_event := Some cancel_event\<rparr>
      in if genai_lock s1
         then Inl ([], emit (Logger (LogBusy (combo cl) name) # when_set (has_on_error s1) OnError)
                         (s1\<lparr>current_task_event := None\<rparr>))
         else Inr (cl, cancel_event, s1\<lparr>genai_lock := True\<rparr>))"

text \<open>
  The \<open>try\<close> block with its \<open>except\<close> and \<open>finally\<close>, run by the call that holds the lock.
  At the end the event of the call is set if it has been set during the call.
\<close>

definition run_locked :: "env \<Rightarrow> call \<Rightarrow> nat \<Rightarrow> state \<Rightarrow> string \<times> state" where
  "run_locked e cl cancel_event s =
     (let p = the_provider cl;
          s1 = emit [Logger (LogProcessing (combo cl) (action_name cl) (provider_name p))] s;
          api_keys = items_of (config s1) (api_keys_key p);
          max_attempts = max (length api_keys * 2) 1;
          (res, t, s2) = attempt_loop e cl max_attempts 0 0 s1;
          (ret, s3) =
            (case res of
               ReturnedEmpty \<Rightarrow> ([], s2)
             | Exhausted \<Rightarrow> ([], s2)
             | Failed ex \<Rightarrow> handler e ex s2
             | Success None \<Rightarrow> ([], s2)
             | Success (Some r) \<Rightarrow>
                 if r = [] then ([], s2)
                 else (case update_key_timestamp p (time_now e) s2 of
                         Inl ex \<Rightarrow> handler e ex s2
                       | Inr s' \<Rightarrow> (r, emit [Save] s')))
      in (ret, s3\<lparr>genai_lock := False, current_task_event := None,
                   events_set := (if is_set_at e t then insert cancel_event (events_set s3)
                                  else events_set s3)\<rparr>))"

definition process :: "env \<Rightarrow> string \<Rightarrow> state \<Rightarrow> string \<times> state" where
  "process e name s =
     (case enter name s of
        Inl r \<Rightarrow> r
      | Inr (cl, cancel_event, s') \<Rightarrow> run_locked e cl cancel_event s')"

definition cancel_current :: "state \<Rightarrow> state" where
  "cancel_current s =
     (case current_task_event s of
        None \<Rightarrow> s
      | Some ev \<Rightarrow> s\<lparr>events_set := insert ev (events_set s)\<rparr>)"

subsection \<open>\<open>handle_hotkey\<close>\<close>


section \<open>Vocabulary of the properties\<close>

text \<open>The key list of a provider, and one rotation as a state transformer.\<close>

definition keys_of :: "provider \<Rightarrow> state \<Rightarrow> item list" where
  "keys_of p s = items_of (config s) (api_keys_key p)"

definition next_key :: "provider \<Rightarrow> state \<Rightarrow> state" where
  "next_key p s = snd (switch_to_next_key p s)"

text \<open>
  Entry \<open>i\<close> is the one and only active entry of the list; exactly one entry is active;
  a list is empty or has exactly one active entry.
\<close>

definition only_active_at :: "item list \<Rightarrow> nat \<Rightarrow> bool" where
  "only_active_at ks i = (i < length ks \<and> (\<forall>j < length ks. is_active (ks ! j) = (j = i)))"

definition one_active :: "item list \<Rightarrow> bool" where
  "one_active ks = (length (filter is_active ks) = 1)"

definition keys_inv :: "item list \<Rightarrow> bool" where
  "keys_inv ks = (ks = [] \<or> one_active ks)"

text \<open>Two key lists agree on every field but \<open>active\<close>.\<close>

definition same_fields :: "item list \<Rightarrow> item list \<Rightarrow> bool" where
  "same_fields ks ks' = (length ks' = length ks \<and>
      (\<forall>j < length ks. \<forall>f. f \<noteq> ''active'' \<longrightarrow> (ks' ! j) f = (ks ! j) f))"

text \<open>
  The usage times of a key: the empty list when the field is missing, nothing when the
  field holds something that is not a list.
\<close>

definition stamps_of :: "item \<Rightarrow> rat list option" where
  "stamps_of k = (case k ''usage_timestamps'' of
                    None \<Rightarrow> Some [] | Some (PTimes l) \<Rightarrow> Some l | Some _ \<Rightarrow> None)"

text \<open>
  A key entry that the retry loop accepts: its \<open>key\<close> is truthy and is a string (or a
  list) that does not contain \<open>YOUR_KEY\<close>.
\<close>

definition usable :: "item \<Rightarrow> bool" where
  "usable k = (get_truthy k ''key'' \<and> py_in ''YOUR_KEY'' (get_val k ''key'') = Inr False)"

text \<open>
  The label that a rotation returns for a key is truthy: the \<open>name\<close> field is missing
  (the label is then \<open>Key N\<close>) or holds a truthy value.
\<close>

definition name_ok :: "item \<Rightarrow> bool" where
  "name_ok k = (case k ''name'' of None \<Rightarrow> True | Some v \<Rightarrow> truthy v)"

text \<open>
  The key list of a provider is ready for rotation on quota errors: it has \<open>K\<close> keys,
  one of them active, every one usable and with a truthy label, and auto-switch is on.
\<close>

definition ready :: "provider \<Rightarrow> state \<Rightarrow> nat \<Rightarrow> bool" where
  "ready p s K = (length (keys_of p s) = K
                 \<and> (\<exists>k \<in> set (keys_of p s). is_active k)
                 \<and> (\<forall>k \<in> set (keys_of p s). usable k \<and> name_ok k)
                 \<and> auto_switch s)"

text \<open>A backend that raises a quota error on every call.\<close>

definition quota_backend :: "env \<Rightarrow> bool" where
  "quota_backend e = (\<forall>n. case outcome (backend e n) of Raised m \<Rightarrow> is_quota e m | _ \<Rightarrow> False)"

text \<open>The adapter calls and the rotation calls recorded in a trace.\<close>

fun is_generate :: "event \<Rightarrow> bool" where
  "is_generate (Generate n) = True"
| "is_generate _ = False"

definition attempts_in :: "event list \<Rightarrow> nat" where
  "attempts_in es = length (filter is_generate es)"

definition rotations_in :: "event list \<Rightarrow> nat" where
  "rotations_in es = length (filter (\<lambda>ev. ev = SwitchCall) es)"

section \<open>Example data\<close>

text \<open>Four key entries, a processor at rest with every callback set, and a list manager.\<close>

definition key_a :: item where
  "key_a = [''key'' \<mapsto> PStr ''AAA'', ''name'' \<mapsto> PStr ''Main Key'',
            ''usage_timestamps'' \<mapsto> PTimes [], ''active'' \<mapsto> PBool False]"

definition key_b :: item where
  "key_b = [''key'' \<mapsto> PStr ''BBB'', ''name'' \<mapsto> PStr ''Second'',
            ''usage_timestamps'' \<mapsto> PTimes [], ''active'' \<mapsto> PBool True]"

definition key_c :: item where
  "key_c = [''key'' \<mapsto> PStr ''CCC'', ''active'' \<mapsto> PBool False]"

definition key_d :: item where
  "key_d = [''key'' \<mapsto> PStr ''DDD'', ''name'' \<mapsto> PStr ''Imported'', ''active'' \<mapsto> PBool True]"

definition idle :: state where
  "idle = \<lparr>config = [''auto_switch_api_keys'' \<mapsto> CVal (PBool True)], hotkeys = [],
           genai_lock = False, current_task_event = None, events_set = {}, next_event = 0,
           has_on_start = True, has_on_success = True, has_on_error = True,
           has_on_key_switch = True, has_on_log = True, trace = []\<rparr>"

definition with_keys :: "item list \<Rightarrow> state" where
  "with_keys ks = idle\<lparr>config := (config idle)(''api_keys'' \<mapsto> CItems ks)\<rparr>"

definition keys_manager :: manager where
  "keys_manager = \<lparr>list_key = ''api_keys'', active_field = ''active'',
                    default_item = [''key'' \<mapsto> PStr [], ''name'' \<mapsto> PStr ''New Key'',
                                    ''usage_timestamps'' \<mapsto> PTimes [],
                                    ''active'' \<mapsto> PBool False]\<rparr>"

text \<open>
  A processor with a call in flight: the call has stored its cancellation event \<open>0\<close> in
  the slot and holds the generation lock.
\<close>

definition in_flight :: state where
  "in_flight = (with_keys [key_a, key_b])
                 \<lparr>next_event := 1, current_task_event := Some 0, genai_lock := True\<rparr>"

text \<open>
  Environments: a backend, a cancellation time, a clock and a clipboard. The texts of
  the exceptions below are ASCII, so that \<open>ascii_lower\<close> is \<open>str.lower()\<close> on them.
\<close>

definition env_of :: "(nat \<Rightarrow> worker) \<Rightarrow> nat option \<Rightarrow> env" where
  "env_of b c = \<lparr>backend = b, cancel_at = c, time_now = 1000, clipboard = (''helo wrold'', False),
                 str_lower = ascii_lower\<rparr>"

definition slow_success :: "nat \<Rightarrow> worker" where
  "slow_success n = \<lparr>alive_polls = 5, outcome = Returned (Some ''Hello world'')\<rparr>"

definition always_quota :: "nat \<Rightarrow> worker" where
  "always_quota n = \<lparr>alive_polls = 2, outcome = Raised ''429 Quota exceeded''\<rparr>"

definition always_exhausted :: "nat \<Rightarrow> worker" where
  "always_exhausted n = \<lparr>alive_polls = 2, outcome = Raised ''Resource exhausted''\<rparr>"

definition always_timeout :: "nat \<Rightarrow> worker" where
  "always_timeout n = \<lparr>alive_polls = 3, outcome = Raised ''504 Deadline Exceeded''\<rparr>"

section \<open>Basic facts\<close>

lemma config_emit [simp]: "config (emit es s) = config s"
  by (simp add: emit_def)

lemma trace_emit [simp]: "trace (emit es s) = trace s @ es"
  by (simp add: emit_def)

lemma config_set: "config (s\<lparr>config := c\<rparr>) = c"
  by simp

lemma is_active_upd [simp]:
  "is_active (d(''active'' \<mapsto> PBool b)) = b"
  by (simp add: is_active_def get_truthy_def)

lemma items_of_upd [simp]:
  "items_of (c(k \<mapsto> CItems xs)) k = xs"
  by (simp add: items_of_def)

lemma items_of_upd_val [simp]: "items_of (c(k \<mapsto> CVal v)) k = []"
  by (simp add: items_of_def)

lemma items_of_upd_other [simp]: "k' \<noteq> k \<Longrightarrow> items_of (c(k' \<mapsto> v)) k = items_of c k"
  by (simp add: items_of_def)

lemma config_reconfigure [simp]: "config (reconfigure p k s) = config s"
  by (cases p) (simp_all add: emit_def)

lemma keys_of_with_keys [simp]: "keys_of Gemini (with_keys ks) = ks"
  by (simp add: keys_of_def with_keys_def)

lemma filter_empty_none: "(filter P xs = []) = (\<forall>x \<in> set xs. \<not> P x)"
  by (induction xs) auto

lemma is_active_upd_other [simp]:
  "f \<noteq> ''active'' \<Longrightarrow> is_active (k(f \<mapsto> v)) = is_active k"
  by (simp add: is_active_def get_truthy_def)

lemma is_active_examples [simp]:
  "\<not> is_active key_a" "is_active key_b" "\<not> is_active key_c" "is_active key_d"
  by (simp_all add: is_active_def get_truthy_def key_a_def key_b_def key_c_def key_d_def)

lemma emit_fields [simp]:
  "hotkeys (emit es s) = hotkeys s"
  "genai_lock (emit es s) = genai_lock s"
  "current_task_event (emit es s) = current_task_event s"
  "events_set (emit es s) = events_set s"
  "next_event (emit es s) = next_event s"
  "has_on_start (emit es s) = has_on_start s"
  "has_on_success (emit es s) = has_on_success s"
  "has_on_error (emit es s) = has_on_error s"
  "has_on_key_switch (emit es s) = has_on_key_switch s"
  "has_on_log (emit es s) = has_on_log s"
  by (simp_all add: emit_def)

lemma emit_emit [simp]: "emit es (emit es' s) = emit (es' @ es) s"
  by (simp add: emit_def)

lemma get_active_key_emit [simp]: "get_active_key p (emit es s) = get_active_key p s"
  by (simp add: get_active_key_def)

lemma auto_switch_emit [simp]: "auto_switch (emit es s) = auto_switch s"
  by (simp add: auto_switch_def)

lemma global_provider_emit [simp]: "global_provider (emit es s) = global_provider s"
  by (simp add: global_provider_def)

lemma get_provider_emit [simp]: "get_provider (emit es s) hk = get_provider s hk"
  by (simp add: get_provider_def split: option.splits)

lemma find_hotkey_emit [simp]: "find_hotkey (emit es s) name = find_hotkey s name"
  by (simp add: find_hotkey_def)

lemma call_of_emit [simp]: "call_of (emit es s) name = call_of s name"
  by (simp add: call_of_def)

lemma call_of_with_keys:
  "call_of (with_keys ks) name =
     \<lparr>action_name = name, combo = [], the_provider = Gemini, model_override = None\<rparr>"
  by (simp add: call_of_def find_hotkey_def with_keys_def idle_def get_provider_def
        global_provider_def get_model_name_def)

lemma usable_examples [simp]: "usable key_a" "usable key_b" "usable key_c" "usable key_d"
  by (simp_all add: usable_def get_truthy_def get_val_def key_a_def key_b_def key_c_def key_d_def)

lemma get_active_key_ab [simp]: "get_active_key Gemini (with_keys [key_a, key_b]) = Some key_b"
  by (simp add: get_active_key_def with_keys_def)

lemma generate_unset [simp]: "\<not> is_set_at e t \<Longrightarrow> generate e a t = backend e a"
  by (simp add: generate_def)

lemma is_set_at_Some [simp]: "cancel_at e = Some c \<Longrightarrow> is_set_at e t = (c \<le> t)"
  by (simp add: is_set_at_def)

lemma is_set_at_None [simp]: "cancel_at e = None \<Longrightarrow> \<not> is_set_at e t"
  by (simp add: is_set_at_def)

section \<open>Out-of-range indices\<close>

text \<open>
  C10. For every out-of-range index (negative, or at least the length of the list),
  \<open>delete\<close>, \<open>set_active\<close> and \<open>update_field\<close> return \<open>False\<close> and return the state
  as it was: the configuration is unchanged and neither the save nor the refresh
  callback has been called (the trace is part of the state).
\<close>

theorem out_of_range_is_noop:
  assumes "index < 0 \<or> int (length (items_of (config s) (list_key m))) \<le> index"
  shows "delete m index s = (False, s)
       \<and> set_active m index s = (False, s)
       \<and> update_field m index field v s = (False, s)"
  using assms by (auto simp: delete_def set_active_def update_field_def in_range_def Let_def)

theorem out_of_range_is_noop_witness:
  "int (length (items_of (config (with_keys [key_a, key_b])) (list_key keys_manager))) \<le> 2
   \<and> delete keys_manager 2 (with_keys [key_a, key_b]) = (False, with_keys [key_a, key_b])
   \<and> set_active keys_manager 2 (with_keys [key_a, key_b]) = (False, with_keys [key_a, key_b])
   \<and> update_field keys_manager 2 ''name'' (PStr ''x'') (with_keys [key_a, key_b])
       = (False, with_keys [key_a, key_b])
   \<and> delete keys_manager (- 1) (with_keys [key_a, key_b]) = (False, with_keys [key_a, key_b])"
proof -
  have h: "int (length (items_of (config (with_keys [key_a, key_b])) (list_key keys_manager))) \<le> 2"
    by (simp add: with_keys_def keys_manager_def)
  show ?thesis
    using h out_of_range_is_noop [of 2 "with_keys [key_a, key_b]" keys_manager "''name''" "PStr ''x''"]
      out_of_range_is_noop [of "- 1" "with_keys [key_a, key_b]" keys_manager "''name''" "PStr ''x''"]
    by simp
qed

section \<open>Rotation\<close>

lemma only_active_at_Cons:
  "only_active_at (d # ds) i \<longleftrightarrow>
     (if i = 0 then is_active d \<and> (\<forall>x \<in> set ds. \<not> is_active x)
      else \<not> is_active d \<and> only_active_at ds (i - 1))"
proof (cases i)
  case 0
  have "(\<forall>j < Suc (length ds). is_active ((d # ds) ! j) = (j = 0))
          \<longleftrightarrow> (is_active d \<and> (\<forall>x \<in> set ds. \<not> is_active x))"
    (is "?L \<longleftrightarrow> ?R")
  proof
    assume l: ?L
    have "is_active d" using l by auto
    moreover have "\<not> is_active x" if mem: "x \<in> set ds" for x
    proof -
      obtain k where "k < length ds" "ds ! k = x"
        using mem by (auto simp: in_set_conv_nth)
      then show ?thesis using l [rule_format, of "Suc k"] by simp
    qed
    ultimately show ?R by blast
  next
    assume r: ?R
    show ?L
    proof (intro allI impI)
      fix j assume "j < Suc (length ds)"
      then show "is_active ((d # ds) ! j) = (j = 0)"
        using r by (cases j) auto
    qed
  qed
  then show ?thesis using 0 by (simp add: only_active_at_def)
next
  case (Suc k)
  then show ?thesis
    by (auto simp: only_active_at_def nth_Cons split: nat.splits)
qed

lemma first_active_only:
  "only_active_at ks i \<Longrightarrow> first_active n ks = Some (n + i)"
proof (induction ks arbitrary: n i)
  case Nil
  then show ?case by (simp add: only_active_at_def)
next
  case (Cons d ds)
  then show ?case
    by (cases i) (auto simp: only_active_at_Cons)
qed

lemma find_only_active:
  "only_active_at ks i \<Longrightarrow> find is_active ks = Some (ks ! i)"
proof (induction ks arbitrary: i)
  case Nil
  then show ?case by (simp add: only_active_at_def)
next
  case (Cons d ds)
  then show ?case by (cases i) (auto simp: only_active_at_Cons)
qed

lemma switch_short:
  "length (keys_of p s) < 2 \<Longrightarrow> switch_to_next_key p s = (None, s)"
  by (simp add: switch_to_next_key_def keys_of_def)

lemma keys_after_switch:
  assumes "2 \<le> length (keys_of p s)" and "only_active_at (keys_of p s) i"
  shows "keys_of p (next_key p s) =
           ((keys_of p s)[i := (keys_of p s ! i)(''active'' \<mapsto> PBool False)])
             [Suc i mod length (keys_of p s) :=
                (((keys_of p s)[i := (keys_of p s ! i)(''active'' \<mapsto> PBool False)])
                   ! (Suc i mod length (keys_of p s)))(''active'' \<mapsto> PBool True)]"
proof -
  have fa: "first_active 0 (keys_of p s) = Some i"
    using first_active_only [OF assms(2), of 0] by simp
  have idx: "nat ((int i + 1) mod int (length (keys_of p s))) = Suc i mod length (keys_of p s)"
    by (metis nat_int of_nat_Suc of_nat_mod add.commute)
  show ?thesis
    using assms(1) fa idx
    by (simp add: next_key_def switch_to_next_key_def keys_of_def [symmetric] Let_def)
      (simp add: keys_of_def)
qed

lemma rotate_step:
  assumes "2 \<le> length (keys_of p s)" and "only_active_at (keys_of p s) i"
  shows "only_active_at (keys_of p (next_key p s)) (Suc i mod length (keys_of p s))"
    and "same_fields (keys_of p s) (keys_of p (next_key p s))"
    and "(keys_of p (next_key p s) ! (Suc i mod length (keys_of p s))) ''active'' = Some (PBool True)"
proof -
  let ?n = "length (keys_of p s)"
  have i: "i < ?n" and act: "\<forall>j < ?n. is_active (keys_of p s ! j) = (j = i)"
    using assms(2) by (simp_all add: only_active_at_def)
  have "0 < ?n" using assms(1) by linarith
  then have j: "Suc i mod ?n < ?n" by simp
  have ne: "Suc i mod ?n \<noteq> i"
    using assms(1) i
    by (metis Suc_lessI lessI mod_less mod_self nat_neq_iff not_less_zero Suc_le_lessD numeral_2_eq_2)
  show "only_active_at (keys_of p (next_key p s)) (Suc i mod ?n)"
    using i j ne act
    by (auto simp: keys_after_switch [OF assms] only_active_at_def nth_list_update)
  show "same_fields (keys_of p s) (keys_of p (next_key p s))"
    using i j by (auto simp: keys_after_switch [OF assms] same_fields_def nth_list_update)
  show "(keys_of p (next_key p s) ! (Suc i mod ?n)) ''active'' = Some (PBool True)"
    using i j by (simp add: keys_after_switch [OF assms] nth_list_update)
qed

lemma same_fields_refl: "same_fields ks ks"
  by (simp add: same_fields_def)

lemma same_fields_trans:
  "same_fields a b \<Longrightarrow> same_fields b c \<Longrightarrow> same_fields a c"
  by (simp add: same_fields_def)

lemma rotate_many:
  assumes "2 \<le> length (keys_of p s)" and "only_active_at (keys_of p s) i"
  shows "only_active_at (keys_of p ((next_key p ^^ n) s)) ((i + n) mod length (keys_of p s))
       \<and> same_fields (keys_of p s) (keys_of p ((next_key p ^^ n) s))
       \<and> (0 < n \<longrightarrow> (keys_of p ((next_key p ^^ n) s) ! ((i + n) mod length (keys_of p s)))
                          ''active'' = Some (PBool True))"
proof (induction n)
  case 0
  have "i < length (keys_of p s)" using assms(2) by (simp add: only_active_at_def)
  then show ?case using assms(2) by (simp add: same_fields_refl)
next
  case (Suc n)
  let ?s = "(next_key p ^^ n) s"
  let ?N = "length (keys_of p s)"
  have len: "length (keys_of p ?s) = ?N"
    using Suc by (simp add: same_fields_def)
  have two: "2 \<le> length (keys_of p ?s)" using assms(1) len by simp
  have act: "only_active_at (keys_of p ?s) ((i + n) mod ?N)" using Suc by simp
  have idx: "Suc ((i + n) mod ?N) mod ?N = (i + Suc n) mod ?N"
    by (simp add: mod_Suc_eq)
  note st = rotate_step [OF two act, unfolded len idx]
  show ?case
    using st Suc same_fields_trans [of "keys_of p s" "keys_of p ?s"] by simp
qed

text \<open>
  C8. With at least two keys of which entry \<open>i\<close> is the only active one, as many
  rotations as there are keys make entry \<open>i\<close> the only active entry again; the active key
  is the original entry with \<open>active\<close> set to \<open>True\<close>, and no field other than \<open>active\<close>
  has changed in any entry. With fewer than two keys one call returns \<open>None\<close> and
  changes nothing.
\<close>

theorem rotation_round_robin:
  "(2 \<le> length (keys_of p s) \<and> only_active_at (keys_of p s) i \<longrightarrow>
      get_active_key p ((next_key p ^^ length (keys_of p s)) s)
        = Some ((keys_of p s ! i)(''active'' \<mapsto> PBool True))
      \<and> only_active_at (keys_of p ((next_key p ^^ length (keys_of p s)) s)) i
      \<and> same_fields (keys_of p s) (keys_of p ((next_key p ^^ length (keys_of p s)) s)))
   \<and> (length (keys_of p s) < 2 \<longrightarrow> switch_to_next_key p s = (None, s))"
proof (intro conjI impI)
  assume "length (keys_of p s) < 2"
  then show "switch_to_next_key p s = (None, s)" by (rule switch_short)
next
  assume a: "2 \<le> length (keys_of p s) \<and> only_active_at (keys_of p s) i"
  let ?N = "length (keys_of p s)"
  let ?s = "(next_key p ^^ ?N) s"
  have i: "i < ?N" using a by (simp add: only_active_at_def)
  have m: "(i + ?N) mod ?N = i" using i by simp
  have pos: "0 < ?N" using a by linarith
  note r = rotate_many [of p s i ?N, unfolded m]
  show o: "only_active_at (keys_of p ?s) i" using r a by blast
  show sf: "same_fields (keys_of p s) (keys_of p ?s)" using r a by blast
  have t: "(keys_of p ?s ! i) ''active'' = Some (PBool True)" using r a pos by blast
  have "keys_of p ?s ! i = (keys_of p s ! i)(''active'' \<mapsto> PBool True)"
  proof
    fix f show "(keys_of p ?s ! i) f = ((keys_of p s ! i)(''active'' \<mapsto> PBool True)) f"
      using sf i t by (cases "f = ''active''") (simp_all add: same_fields_def)
  qed
  then show "get_active_key p ?s = Some ((keys_of p s ! i)(''active'' \<mapsto> PBool True))"
    using find_only_active [OF o] by (simp add: get_active_key_def keys_of_def)
qed

theorem rotation_round_robin_witness:
  "2 \<le> length (keys_of Gemini (with_keys [key_a, key_b, key_c]))
   \<and> only_active_at (keys_of Gemini (with_keys [key_a, key_b, key_c])) 1
   \<and> get_active_key Gemini ((next_key Gemini ^^ 3) (with_keys [key_a, key_b, key_c])) = Some key_b
   \<and> length (keys_of Gemini (with_keys [key_b])) < 2
   \<and> switch_to_next_key Gemini (with_keys [key_b]) = (None, with_keys [key_b])"
proof -
  have h: "only_active_at [key_a, key_b, key_c] 1"
    by (simp add: only_active_at_def All_less_Suc numeral_3_eq_3 is_active_def get_truthy_def
          key_a_def key_b_def key_c_def)
  have kb: "key_b(''active'' \<mapsto> PBool True) = key_b"
    by (simp add: key_b_def)
  show ?thesis
    using rotation_round_robin [of Gemini "with_keys [key_a, key_b, key_c]" 1]
      rotation_round_robin [of Gemini "with_keys [key_b]" 0] h kb
    by (simp add: numeral_3_eq_3)
qed

section \<open>Exactly one active key\<close>

lemma one_active_iff: "one_active ks \<longleftrightarrow> (\<exists>i. only_active_at ks i)"
proof (induction ks)
  case Nil
  then show ?case by (simp add: one_active_def only_active_at_def)
next
  case (Cons d ds)
  show ?case
  proof (cases "is_active d")
    case True
    have "(\<exists>i. only_active_at (d # ds) i) \<longleftrightarrow> only_active_at (d # ds) 0"
      using True by (auto simp: only_active_at_Cons split: if_splits)
    then show ?thesis
      using True by (simp add: one_active_def only_active_at_Cons filter_empty_none)
  next
    case False
    have "(\<exists>i. only_active_at (d # ds) i) \<longleftrightarrow> (\<exists>i. only_active_at ds i)"
    proof
      assume "\<exists>i. only_active_at (d # ds) i"
      then obtain i where "only_active_at (d # ds) i" ..
      then show "\<exists>i. only_active_at ds i"
        using False by (auto simp: only_active_at_Cons split: if_splits)
    next
      assume "\<exists>i. only_active_at ds i"
      then obtain i where "only_active_at ds i" ..
      then have "only_active_at (d # ds) (Suc i)"
        using False by (simp add: only_active_at_Cons)
      then show "\<exists>i. only_active_at (d # ds) i" ..
    qed
    then show ?thesis
      using False Cons.IH by (simp add: one_active_def)
  qed
qed

lemma count_remove:
  assumes "i < length ks"
  shows "length (filter P (take i ks @ drop (Suc i) ks))
           = length (filter P ks) - (if P (ks ! i) then 1 else 0)"
proof -
  have "ks = take i ks @ ks ! i # drop (Suc i) ks"
    using assms by (rule id_take_nth_drop)
  then have "filter P ks = filter P (take i ks) @ filter P (ks ! i # drop (Suc i) ks)"
    by (metis filter_append)
  then show ?thesis by simp
qed

lemma activate_first:
  assumes "ks \<noteq> []" and "filter is_active ks = []"
  shows "one_active (ks[0 := (ks ! 0)(''active'' \<mapsto> PBool True)])"
  using assms by (cases ks) (simp_all add: one_active_def split: if_splits)

lemma count_mark_active:
  "length (filter is_active (mark_active n idx ks))
     = (if n \<le> idx \<and> idx < n + length ks then 1 else 0)"
proof (induction ks arbitrary: n)
  case Nil
  then show ?case by simp
next
  case (Cons d ds)
  show ?case using Cons.IH [of "Suc n"] by (cases "n = idx") (auto split: if_splits)
qed

lemma delete_items:
  assumes "in_range index (items_of (config s) (list_key m))"
  shows "items_of (config (snd (delete m index s))) (list_key m) =
           (let r = take (nat index) (items_of (config s) (list_key m))
                      @ drop (Suc (nat index)) (items_of (config s) (list_key m))
            in if is_active (items_of (config s) (list_key m) ! nat index) \<and> 0 < length r
               then r[0 := (r ! 0)(''active'' \<mapsto> PBool True)] else r)"
  using assms
  by (simp only: delete_def Let_def simp_thms if_False snd_conv config_emit config_set
        items_of_upd is_active_def)

lemma delete_keeps_inv:
  assumes "keys_inv (items_of (config s) (list_key m))"
  shows "keys_inv (items_of (config (snd (delete m index s))) (list_key m))"
proof (cases "in_range index (items_of (config s) (list_key m))")
  case False
  then show ?thesis using assms by (simp add: delete_def)
next
  case True
  let ?ks = "items_of (config s) (list_key m)"
  let ?i = "nat index"
  let ?r = "take ?i ?ks @ drop (Suc ?i) ?ks"
  have i: "?i < length ?ks" using True by (auto simp: in_range_def)
  then have one: "length (filter is_active ?ks) = 1"
    using assms by (auto simp: keys_inv_def one_active_def)
  have cnt: "length (filter is_active ?r)
               = 1 - (if is_active (?ks ! ?i) then 1 else 0)"
    using count_remove [OF i, of is_active] one by simp
  show ?thesis
  proof (cases "is_active (?ks ! ?i) \<and> 0 < length ?r")
    case True
    then have "filter is_active ?r = []" using cnt by simp
    moreover have "?r \<noteq> []" using True by auto
    ultimately have "one_active (?r[0 := (?r ! 0)(''active'' \<mapsto> PBool True)])"
      by (rule activate_first [rotated])
    then show ?thesis
      using True by (simp only: delete_items [OF \<open>in_range index ?ks\<close>] Let_def keys_inv_def if_True simp_thms)
  next
    case False
    then have "keys_inv ?r"
      using cnt by (cases "is_active (?ks ! ?i)") (auto simp: keys_inv_def one_active_def)
    then show ?thesis
      using False by (simp only: delete_items [OF \<open>in_range index ?ks\<close>] Let_def if_False)
  qed
qed

lemma set_active_keeps_inv:
  assumes "keys_inv (items_of (config s) (list_key m))"
  shows "keys_inv (items_of (config (snd (set_active m index s))) (list_key m))"
proof (cases "in_range index (items_of (config s) (list_key m))")
  case False
  then show ?thesis using assms by (simp add: set_active_def)
next
  case True
  let ?ks = "items_of (config s) (list_key m)"
  have i: "nat index < length ?ks" using True by (auto simp: in_range_def)
  show ?thesis
  proof (cases "''active'' \<in> dom (?ks ! 0)")
    case True
    have "one_active (mark_active 0 (nat index) ?ks)"
      using i by (simp add: one_active_def count_mark_active)
    then show ?thesis
      using True \<open>in_range index ?ks\<close> by (simp add: set_active_def Let_def keys_inv_def)
  next
    case False
    show ?thesis
    proof (cases "active_field m = list_key m")
      case True
      then show ?thesis
        using False \<open>in_range index ?ks\<close> assms
        by (simp add: set_active_def Let_def) (simp add: keys_inv_def)
    next
      case ne: False
      then show ?thesis
        using False \<open>in_range index ?ks\<close> assms
        by (simp add: set_active_def Let_def)
    qed
  qed
qed

lemma switch_keeps_inv:
  assumes "keys_inv (keys_of p s)"
  shows "keys_inv (keys_of p (snd (switch_to_next_key p s)))"
proof (cases "length (keys_of p s) < 2")
  case True
  then show ?thesis using assms by (simp add: switch_short)
next
  case False
  then have two: "2 \<le> length (keys_of p s)" by simp
  then have "one_active (keys_of p s)" using assms by (auto simp: keys_inv_def)
  then obtain i where "only_active_at (keys_of p s) i" by (auto simp: one_active_iff)
  from rotate_step(1) [OF two this]
  have "one_active (keys_of p (next_key p s))" by (auto simp: one_active_iff)
  then show ?thesis by (simp add: keys_inv_def next_key_def)
qed

lemma add_items:
  "items_of (config (snd (add m it s))) (list_key m) =
     items_of (config s) (list_key m)
       @ [if items_of (config s) (list_key m) = [] \<and> ''active'' \<in> dom (effective_item m it)
          then (effective_item m it)(''active'' \<mapsto> PBool True) else effective_item m it]"
proof (cases "list_key m \<in> dom (config s)")
  case True
  then show ?thesis by (simp add: add_def Let_def)
next
  case False
  then have "items_of (config s) (list_key m) = []"
    by (auto simp: items_of_def split: option.splits)
  then show ?thesis using False by (simp add: add_def Let_def)
qed

lemma add_keeps_inv:
  assumes "keys_inv (items_of (config s) (list_key m))"
    and "if items_of (config s) (list_key m) = [] then ''active'' \<in> dom (effective_item m it)
         else \<not> is_active (effective_item m it)"
  shows "one_active (items_of (config (snd (add m it s))) (list_key m))"
proof (cases "items_of (config s) (list_key m) = []")
  case True
  then show ?thesis using assms(2) by (simp add: add_items one_active_def)
next
  case False
  then have "one_active (items_of (config s) (list_key m))"
    using assms(1) by (simp add: keys_inv_def)
  then show ?thesis using False assms(2) by (simp add: add_items one_active_def)
qed

lemma one_active_b:  "one_active [key_a, key_b]"
  by (simp add: one_active_def is_active_def get_truthy_def key_a_def key_b_def)

text \<open>
  C2. A key list that is empty or has exactly one active entry stays so under
  \<open>delete\<close>, \<open>set_active\<close> and \<open>switch_to_next_key\<close>, for every index. \<open>add\<close> keeps
  exactly one active entry when the added item (the argument, or the default item for
  \<open>None\<close> and the empty dictionary) has an \<open>active\<close> field in case the list is empty (that
  first item becomes active), and is not active in case the list already has entries.
  What the two operations do to the flags: \<open>delete\<close> with an index in range removes
  that entry and, when the removed entry was active and entries remain, activates the
  entry at index \<open>0\<close>, and changes nothing else; \<open>add\<close> appends the item, with its flag
  set when the list was empty and the item has the field, and as it is otherwise, so
  that the flag of an item added to a list with entries is never changed.
\<close>

theorem one_active_preserved:
  "(keys_inv (items_of (config s) (list_key m)) \<longrightarrow>
       keys_inv (items_of (config (snd (delete m index s))) (list_key m))
     \<and> keys_inv (items_of (config (snd (set_active m index s))) (list_key m))
     \<and> ((if items_of (config s) (list_key m) = [] then ''active'' \<in> dom (effective_item m it)
          else \<not> is_active (effective_item m it))
        \<longrightarrow> one_active (items_of (config (snd (add m it s))) (list_key m))))
   \<and> (keys_inv (keys_of p s) \<longrightarrow> keys_inv (keys_of p (snd (switch_to_next_key p s))))
   \<and> (in_range index (items_of (config s) (list_key m)) \<longrightarrow>
        items_of (config (snd (delete m index s))) (list_key m) =
          (let r = take (nat index) (items_of (config s) (list_key m))
                     @ drop (Suc (nat index)) (items_of (config s) (list_key m))
           in if is_active (items_of (config s) (list_key m) ! nat index) \<and> 0 < length r
              then r[0 := (r ! 0)(''active'' \<mapsto> PBool True)] else r))
   \<and> items_of (config (snd (add m it s))) (list_key m) =
       items_of (config s) (list_key m)
         @ [if items_of (config s) (list_key m) = [] \<and> ''active'' \<in> dom (effective_item m it)
            then (effective_item m it)(''active'' \<mapsto> PBool True) else effective_item m it]"
proof (intro conjI impI)
  show "items_of (config (snd (add m it s))) (list_key m) =
       items_of (config s) (list_key m)
         @ [if items_of (config s) (list_key m) = [] \<and> ''active'' \<in> dom (effective_item m it)
            then (effective_item m it)(''active'' \<mapsto> PBool True) else effective_item m it]"
    by (rule add_items)
qed (simp_all only: delete_keeps_inv set_active_keeps_inv add_keeps_inv switch_keeps_inv
       delete_items)

theorem add_breaks_one_active:
  "keys_inv (items_of (config (with_keys [key_a, key_b])) (list_key keys_manager))
   \<and> \<not> keys_inv (items_of (config (snd (add keys_manager (Some key_d) (with_keys [key_a, key_b]))))
                  (list_key keys_manager))"
proof -
  have e: "effective_item keys_manager (Some key_d) = key_d"
    by (simp add: effective_item_def key_d_def)
  have k: "items_of (config (with_keys [key_a, key_b])) (list_key keys_manager) = [key_a, key_b]"
    by (simp add: with_keys_def keys_manager_def)
  show ?thesis
    by (simp add: add_items e k keys_inv_def one_active_b)
      (simp add: one_active_def is_active_def get_truthy_def key_a_def key_b_def key_d_def)
qed

theorem one_active_preserved_witness:
  "keys_inv (items_of (config (with_keys [key_a, key_b])) (list_key keys_manager))
   \<and> keys_inv (items_of (config (snd (delete keys_manager 1 (with_keys [key_a, key_b]))))
        (list_key keys_manager))
   \<and> keys_inv (items_of (config (snd (set_active keys_manager 0 (with_keys [key_a, key_b]))))
        (list_key keys_manager))
   \<and> \<not> is_active (effective_item keys_manager None)
   \<and> one_active (items_of (config (snd (add keys_manager None (with_keys [key_a, key_b]))))
        (list_key keys_manager))
   \<and> keys_inv (keys_of Gemini (with_keys [key_a, key_b]))
   \<and> keys_inv (keys_of Gemini (snd (switch_to_next_key Gemini (with_keys [key_a, key_b]))))
   \<and> in_range 1 (items_of (config (with_keys [key_a, key_b])) (list_key keys_manager))
   \<and> items_of (config (snd (delete keys_manager 1 (with_keys [key_a, key_b]))))
        (list_key keys_manager) = [key_a(''active'' \<mapsto> PBool True)]
   \<and> items_of (config (snd (add keys_manager None (with_keys [key_a, key_b]))))
        (list_key keys_manager) = [key_a, key_b, default_item keys_manager]"
proof -
  have k: "items_of (config (with_keys [key_a, key_b])) (list_key keys_manager) = [key_a, key_b]"
    by (simp add: with_keys_def keys_manager_def)
  have e: "\<not> is_active (effective_item keys_manager None)"
    by (simp add: effective_item_def keys_manager_def is_active_def get_truthy_def)
  have d: "effective_item keys_manager None = default_item keys_manager"
    by (simp add: effective_item_def)
  have r: "in_range 1 [key_a, key_b]" by (simp add: in_range_def)
  have a: "one_active [key_a(''active'' \<mapsto> PBool True)]" by (simp add: one_active_def)
  show ?thesis
    using one_active_preserved [of "with_keys [key_a, key_b]" keys_manager 1 None Gemini]
      one_active_preserved [of "with_keys [key_a, key_b]" keys_manager 0 None Gemini]
      k e one_active_b r a
    by (simp add: keys_inv_def d)
qed

section \<open>Which mutations save and refresh\<close>










section \<open>Usage times\<close>

lemma first_active_Some:
  "first_active n ks = Some m \<Longrightarrow>
     n \<le> m \<and> m - n < length ks \<and> is_active (ks ! (m - n))
     \<and> find is_active ks = Some (ks ! (m - n))
     \<and> (\<forall>k'. is_active k' \<longrightarrow> find is_active (ks[m - n := k']) = Some k')"
proof (induction ks arbitrary: n)
  case Nil
  then show ?case by simp
next
  case (Cons d ds)
  show ?case
  proof (cases "is_active d")
    case True
    then show ?thesis using Cons.prems by simp
  next
    case False
    then have fa: "first_active (Suc n) ds = Some m" using Cons.prems by simp
    note ih = Cons.IH [OF fa]
    then have "Suc n \<le> m" by simp
    then have m: "m - n = Suc (m - Suc n)" by simp
    show ?thesis using ih False by (simp add: m)
  qed
qed

lemma find_first_active:
  "find is_active ks = Some k \<Longrightarrow> \<exists>i. first_active n ks = Some (n + i)"
proof (induction ks arbitrary: n)
  case Nil
  then show ?case by simp
next
  case (Cons d ds)
  show ?case
  proof (cases "is_active d")
    case True
    then show ?thesis by simp
  next
    case False
    then have "find is_active ds = Some k" using Cons.prems by simp
    from Cons.IH [OF this, of "Suc n"] obtain i where "first_active (Suc n) ds = Some (Suc n + i)" ..
    then have "first_active n (d # ds) = Some (n + Suc i)" using False by simp
    then show ?thesis ..
  qed
qed

lemma update_key_timestamp_active:
  assumes "get_active_key p s = Some k" and "stamps_of k = Some l"
  shows "\<exists>s'. update_key_timestamp p t s = Inr s'
            \<and> get_active_key p s' =
                Some (k(''usage_timestamps'' \<mapsto> PTimes (filter (\<lambda>ts. t - ts < 86400) (l @ [t]))))"
proof -
  let ?ks = "items_of (config s) (api_keys_key p)"
  have f: "find is_active ?ks = Some k" using assms(1) by (simp add: get_active_key_def)
  then obtain i where fa: "first_active 0 ?ks = Some i"
    using find_first_active [of ?ks k 0] by auto
  note fs = first_active_Some [OF fa]
  have ki: "?ks ! i = k" using fs f by simp
  have act: "is_active k" using fs ki by auto
  let ?k' = "k(''usage_timestamps'' \<mapsto> PTimes (filter (\<lambda>ts. t - ts < 86400) (l @ [t])))"
  have act': "is_active ?k'" using act by simp
  have fnd: "find is_active (?ks[i := ?k']) = Some ?k'" using fs act' by simp
  show ?thesis
  proof (cases "k ''usage_timestamps''")
    case None
    then have "l = []" using assms(2) by (simp add: stamps_of_def)
    then show ?thesis
      using None fa ki fnd
      by (simp add: update_key_timestamp_def Let_def get_active_key_def domIff)
  next
    case (Some v)
    then have v: "v = PTimes l"
      using assms(2) by (cases v) (simp_all add: stamps_of_def)
    have "''usage_timestamps'' \<in> dom k" using Some by auto
    then show ?thesis
      using Some v fa ki fnd
      by (simp add: update_key_timestamp_def Let_def get_active_key_def)
  qed
qed

lemma usage_window_aux:
  assumes "get_active_key p s = Some k" and "stamps_of k = Some l"
  shows "\<exists>s' k' xs. record_usages p (ts @ [t]) s = Inr s'
           \<and> get_active_key p s' = Some k'
           \<and> k' ''usage_timestamps'' = Some (PTimes xs)
           \<and> (\<forall>x \<in> set xs. t - x < 86400)
           \<and> t \<in> set xs
           \<and> length xs \<le> length l + length ts + 1"
  using assms
proof (induction ts arbitrary: s k l)
  case Nil
  from update_key_timestamp_active [OF Nil, of t]
  obtain s' where s': "update_key_timestamp p t s = Inr s'"
    "get_active_key p s' =
       Some (k(''usage_timestamps'' \<mapsto> PTimes (filter (\<lambda>ts. t - ts < 86400) (l @ [t]))))"
    by blast
  have "length (filter (\<lambda>ts. t - ts < 86400) (l @ [t])) \<le> length l + 1"
    by (metis length_filter_le length_append_singleton Suc_eq_plus1)
  then show ?case using s' by auto
next
  case (Cons u ts)
  from update_key_timestamp_active [OF Cons.prems, of u]
  obtain s1 where s1: "update_key_timestamp p u s = Inr s1"
    "get_active_key p s1 =
       Some (k(''usage_timestamps'' \<mapsto> PTimes (filter (\<lambda>ts. u - ts < 86400) (l @ [u]))))"
    by blast
  let ?l1 = "filter (\<lambda>ts. u - ts < 86400) (l @ [u])"
  have st: "stamps_of (k(''usage_timestamps'' \<mapsto> PTimes ?l1)) = Some ?l1"
    by (simp add: stamps_of_def)
  from Cons.IH [OF s1(2) st]
  obtain s' k' xs where r: "record_usages p (ts @ [t]) s1 = Inr s'"
    "get_active_key p s' = Some k'" "k' ''usage_timestamps'' = Some (PTimes xs)"
    "\<forall>x \<in> set xs. t - x < 86400" "t \<in> set xs" "length xs \<le> length ?l1 + length ts + 1"
    by blast
  have "length ?l1 \<le> length l + 1"
    by (metis length_filter_le length_append_singleton Suc_eq_plus1)
  then have "length xs \<le> length l + length (u # ts) + 1"
    using r(6) unfolding length_Cons by linarith
  then show ?case using r s1(1) by auto
qed

text \<open>
  C9. When the \<open>usage_timestamps\<close> field of the active key is missing or a list, every
  sequence of calls of \<open>_update_key_timestamp\<close> at arbitrary times succeeds, and after
  the last call, made at time \<open>t\<close>, the list of the active key holds only times \<open>x\<close> with
  \<open>t - x < 86400\<close>, among them \<open>t\<close> itself. The list has grown by at most one entry
  per call.
\<close>

theorem usage_window:
  assumes "get_active_key p s = Some k" and "stamps_of k = Some l"
  shows "\<exists>s' k' xs. record_usages p (ts @ [t]) s = Inr s'
           \<and> get_active_key p s' = Some k'
           \<and> k' ''usage_timestamps'' = Some (PTimes xs)
           \<and> (\<forall>x \<in> set xs. t - x < 86400)
           \<and> t \<in> set xs
           \<and> length xs \<le> length l + length ts + 1"
  using assms by (rule usage_window_aux)

theorem usage_window_witness:
  "get_active_key Gemini (with_keys [key_a, key_b]) = Some key_b
   \<and> stamps_of key_b = Some []
   \<and> record_usages Gemini ([0, 100000] @ [100001]) (with_keys [key_a, key_b])
       = Inr (with_keys [key_a, key_b(''usage_timestamps'' \<mapsto> PTimes [100000, 100001])])
   \<and> (\<exists>s' k' xs. record_usages Gemini ([0, 100000] @ [100001]) (with_keys [key_a, key_b]) = Inr s'
           \<and> get_active_key Gemini s' = Some k'
           \<and> k' ''usage_timestamps'' = Some (PTimes xs)
           \<and> (\<forall>x \<in> set xs. 100001 - x < 86400)
           \<and> 100001 \<in> set xs
           \<and> length xs \<le> 3)"
proof -
  have a: "get_active_key Gemini (with_keys [key_a, key_b]) = Some key_b"
    by (simp add: get_active_key_def with_keys_def)
  have b: "stamps_of key_b = Some []"
    by (simp add: stamps_of_def key_b_def)
  have c: "record_usages Gemini ([0, 100000] @ [100001]) (with_keys [key_a, key_b])
       = Inr (with_keys [key_a, key_b(''usage_timestamps'' \<mapsto> PTimes [100000, 100001])])"
    by (simp add: update_key_timestamp_def with_keys_def Let_def key_a_def key_b_def
          is_active_def get_truthy_def)
  show ?thesis
    using usage_window [OF a b, of "[0, 100000]" 100001] a b c by (simp add: numeral_3_eq_3)
qed

section \<open>A call that finds the generation lock held\<close>

lemma busy_aux:
  assumes "genai_lock s"
  shows "process e name s =
           ([], s\<lparr>next_event := Suc (next_event s), current_task_event := None,
                  trace := trace s @ Logger (LogBusy (combo (call_of s name)) name)
                                     # when_set (has_on_error s) OnError\<rparr>)"
  using assms by (simp add: process_def enter_def Let_def emit_def)

text \<open>
  C3. A call of \<open>process\<close> that finds the generation lock held returns the empty
  string at once: the result does not depend on the environment (no worker, no poll,
  no waiting), the only effects are the \<open>Busy\<close> warning of the logger and the error
  callback (when one is set), there is no adapter call and no rotation, and the
  configuration and the lock are as before.
\<close>

theorem busy_fails_fast:
  assumes "genai_lock s"
  shows "process e name s =
           ([], s\<lparr>next_event := Suc (next_event s), current_task_event := None,
                  trace := trace s @ Logger (LogBusy (combo (call_of s name)) name)
                                     # when_set (has_on_error s) OnError\<rparr>)"
  using assms by (rule busy_aux)

theorem busy_fails_fast_witness:
  "genai_lock in_flight
   \<and> process (env_of slow_success None) ''Fix'' in_flight =
       ([], in_flight\<lparr>next_event := 2, current_task_event := None,
                      trace := [Logger (LogBusy [] ''Fix''), OnError]\<rparr>)"
proof -
  have l: "genai_lock in_flight" by (simp add: in_flight_def)
  have c: "combo (call_of in_flight ''Fix'') = []"
    by (simp add: call_of_def find_hotkey_def in_flight_def with_keys_def idle_def)
  have t: "trace in_flight = []" "has_on_error in_flight" "next_event in_flight = 1"
    by (simp_all add: in_flight_def with_keys_def idle_def)
  show ?thesis
    using busy_fails_fast [OF l, of "env_of slow_success None" "''Fix''"] l c t
    by (simp add: when_set_def)
qed

section \<open>The cancellation slot\<close>

text \<open>
  C5. The code at a concrete input. A first call enters \<open>process\<close> on a processor at
  rest: it stores its event \<open>0\<close> in the slot and takes the lock. Cancelling now would set
  event \<open>0\<close>. A second call of \<open>process\<close> in this state finds the lock held and returns,
  leaving the slot empty, so that \<open>cancel_current\<close> no longer sets the event of the
  call in flight.
\<close>

theorem busy_call_clears_token:
  "enter ''Fix'' (with_keys [key_a, key_b])
     = Inr (call_of (with_keys [key_a, key_b]) ''Fix'', 0, in_flight)
   \<and> current_task_event in_flight = Some 0
   \<and> current_task_event (snd (process (env_of slow_success None) ''Fix'' in_flight)) = None
   \<and> 0 \<in> events_set (cancel_current in_flight)
   \<and> 0 \<notin> events_set (cancel_current (snd (process (env_of slow_success None) ''Fix'' in_flight)))"
proof -
  have l: "genai_lock in_flight" by (simp add: in_flight_def)
  show ?thesis
    by (simp add: busy_aux [OF l] cancel_current_def)
      (simp add: enter_def in_flight_def with_keys_def idle_def Let_def)
qed

section \<open>Cancellation\<close>



lemma poll_loop_quiet:
  "cancel_at e = None \<Longrightarrow> poll_loop e t d = (False, t + d)"
  by (induction d arbitrary: t) simp_all

















section \<open>The retry loop on failures\<close>

lemma step_raised:
  assumes "get_active_key (the_provider cl) s = Some k" and "usable k"
    and "cancel_at e = None" and "outcome (backend e a) = Raised msg"
  shows "attempt_step e cl a t s =
           (if is_quota e msg \<and> auto_switch s
            then (case switch_to_next_key (the_provider cl) (emit [Generate a, SwitchCall] s) of
                    (None, s2) \<Rightarrow>
                      (Stop (Failed (ApiError msg)) s2, t + alive_polls (backend e a))
                  | (Some v, s2) \<Rightarrow>
                      if truthy v
                      then (Continue (emit (when_set (has_on_key_switch s2) (OnKeySwitch v)
                                            @ when_set (has_on_log s2) (OnLog (SwitchedTo v))) s2),
                            t + alive_polls (backend e a))
                      else (Stop (Failed (ApiError msg)) s2, t + alive_polls (backend e a)))
            else (Stop (Failed (ApiError msg)) (emit [Generate a] s),
                  t + alive_polls (backend e a)))"
proof -
  have g: "generate e a t = backend e a"
    using assms(3) by simp
  show ?thesis
    using assms(1,2,4) poll_loop_quiet [OF assms(3)]
    by (simp add: attempt_step_def usable_def Let_def g split: prod.splits option.splits)
qed


lemma loop_raised:
  assumes "get_active_key (the_provider cl) s = Some k" and "usable k"
    and "cancel_at e = None" and "outcome (backend e (Suc a)) = Raised msg" and "a < mx"
  shows "attempt_loop e cl mx a t s =
           (if is_quota e msg \<and> auto_switch s
            then (case switch_to_next_key (the_provider cl) (emit [Generate (Suc a), SwitchCall] s) of
                    (None, s2) \<Rightarrow>
                      (Failed (ApiError msg), t + alive_polls (backend e (Suc a)), s2)
                  | (Some v, s2) \<Rightarrow>
                      if truthy v
                      then attempt_loop e cl mx (Suc a) (t + alive_polls (backend e (Suc a)))
                             (emit (when_set (has_on_key_switch s2) (OnKeySwitch v)
                                    @ when_set (has_on_log s2) (OnLog (SwitchedTo v))) s2)
                      else (Failed (ApiError msg), t + alive_polls (backend e (Suc a)), s2))
            else (Failed (ApiError msg), t + alive_polls (backend e (Suc a)),
                  emit [Generate (Suc a)] s))"
  using assms(5) step_raised [OF assms(1-4), of t]
  by (simp add: attempt_loop.simps [of e cl mx a t s] split: prod.splits option.splits)

lemma process_unfold:
  assumes "\<not> genai_lock s"
  shows "process e name s =
           run_locked e (call_of s name) (next_event s)
             (s\<lparr>next_event := Suc (next_event s), current_task_event := Some (next_event s),
                genai_lock := True\<rparr>)"
  using assms by (simp add: process_def enter_def Let_def)

lemma action_name_call_of [simp]: "action_name (call_of s name) = name"
  by (simp add: call_of_def Let_def)

lemma process_first_failure:
  assumes "\<not> genai_lock s"
    and "get_active_key (the_provider (call_of s name)) s = Some k" and "usable k"
    and "cancel_at e = None" and "outcome (backend e 1) = Raised msg"
    and "\<not> (is_quota e msg \<and> auto_switch s)"
  shows "process e name s =
           ([], s\<lparr>next_event := Suc (next_event s),
                  genai_lock := False, current_task_event := None,
                  trace := trace s @
                    [Logger (LogProcessing (combo (call_of s name)) name
                               (provider_name (the_provider (call_of s name)))),
                     Generate 1]
                    @ when_set (has_on_log s) (OnLog (ErrorMsg (classify e (ApiError msg))))
                    @ [Logger (LogFinal (classify e (ApiError msg)))]\<rparr>)"
proof -
  let ?cl = "call_of s name"
  let ?s1 = "s\<lparr>next_event := Suc (next_event s), current_task_event := Some (next_event s),
               genai_lock := True\<rparr>"
  let ?s2 = "emit [Logger (LogProcessing (combo ?cl) (action_name ?cl)
                      (provider_name (the_provider ?cl)))] ?s1"
  have k: "get_active_key (the_provider ?cl) ?s2 = Some k"
    using assms(2) by (simp add: get_active_key_def)
  have o: "outcome (backend e (Suc 0)) = Raised msg" using assms(5) by simp
  have mx: "0 < max (length (items_of (config ?s2) (api_keys_key (the_provider ?cl))) * 2) 1"
    by simp
  have q: "\<not> (is_quota e msg \<and> auto_switch ?s2)"
    using assms(6) by (simp add: auto_switch_def)
  have lp: "attempt_loop e ?cl
              (max (length (items_of (config ?s2) (api_keys_key (the_provider ?cl))) * 2) 1) 0 0 ?s2
            = (Failed (ApiError msg), 0 + alive_polls (backend e (Suc 0)),
               emit [Generate (Suc 0)] ?s2)"
    by (rule trans [OF loop_raised [OF k assms(3,4) o mx, of 0] if_not_P [OF q]])
  have ns: "\<not> is_set_at e t" for t using assms(4) by (simp add: is_set_at_def)
  show ?thesis
    unfolding process_unfold [OF assms(1)]
    apply (simp add: run_locked_def Let_def)
    apply (simp only: lp [simplified])
    apply (simp add: ns handler_def emit_def)
    done
qed

lemma good_upd_active [simp]:
  "usable (k(''active'' \<mapsto> b)) = usable k" "name_ok (k(''active'' \<mapsto> b)) = name_ok k"
  by (simp_all add: usable_def name_ok_def get_truthy_def get_val_def)

lemma all_set_update:
  "\<forall>k \<in> set ks. P k \<Longrightarrow> P x \<Longrightarrow> \<forall>k \<in> set (ks[i := x]). P k"
  using set_update_subset_insert [of ks i x] by auto

lemma truthy_Key: "truthy (PStr (''Key '' @ dec n))"
  by simp

lemma switch_many:
  assumes "2 \<le> length (keys_of p s)" and "\<forall>k \<in> set (keys_of p s). usable k \<and> name_ok k"
  shows "\<exists>v s2 es. switch_to_next_key p s = (Some v, s2) \<and> truthy v
           \<and> length (keys_of p s2) = length (keys_of p s)
           \<and> (\<exists>k \<in> set (keys_of p s2). is_active k)
           \<and> (\<forall>k \<in> set (keys_of p s2). usable k \<and> name_ok k)
           \<and> auto_switch s2 = auto_switch s
           \<and> s2 = emit es (s\<lparr>config := config s2\<rparr>)
           \<and> attempts_in es = 0 \<and> rotations_in es = 0"
proof -
  define keys where "keys = keys_of p s"
  define ci :: int where "ci = (case first_active 0 keys of None \<Rightarrow> - 1 | Some i \<Rightarrow> int i)"
  define keys1 where "keys1 = (if ci \<ge> 0 then keys[nat ci := (keys ! nat ci)(''active'' \<mapsto> PBool False)] else keys)"
  define nx where "nx = nat ((ci + 1) mod int (length keys))"
  define keys2 where "keys2 = keys1[nx := (keys1 ! nx)(''active'' \<mapsto> PBool True)]"
  define s1 where "s1 = s\<lparr>config := (config s)(api_keys_key p \<mapsto> CItems keys2)\<rparr>"
  define nk where "nk = get_val (keys2 ! nx) ''key''"
  define s2 where "s2 = (if truthy nk then reconfigure p nk s1 else s1)"
  define v where "v = (case (keys2 ! nx) ''name'' of None \<Rightarrow> PStr (''Key '' @ dec (nx + 1)) | Some v \<Rightarrow> v)"
  have len: "2 \<le> length keys" using assms(1) by (simp add: keys_def)
  have nl: "\<not> length (items_of (config s) (api_keys_key p)) < 2"
    using len by (simp add: keys_def keys_of_def)
  have sw: "switch_to_next_key p s = (Some v, s2)"
    unfolding switch_to_next_key_def Let_def v_def s2_def nk_def s1_def keys2_def nx_def
      keys1_def ci_def keys_def keys_of_def
    by (simp only: nl if_False)
  have l1: "length keys1 = length keys" by (simp add: keys1_def)
  have l2: "length keys2 = length keys" by (simp add: keys2_def l1)
  have nxl: "nx < length keys"
  proof -
    have "0 < int (length keys)" using len by auto
    then have "(ci + 1) mod int (length keys) < int (length keys)" by (rule pos_mod_bound)
    moreover have "0 \<le> (ci + 1) mod int (length keys)"
      using \<open>0 < int (length keys)\<close> by (rule pos_mod_sign)
    ultimately show ?thesis by (simp add: nx_def)
  qed
  have g: "\<forall>k \<in> set keys. usable k \<and> name_ok k" using assms(2) by (simp add: keys_def)
  have g1: "\<forall>k \<in> set keys1. usable k \<and> name_ok k"
  proof (cases "ci \<ge> 0")
    case True
    then obtain i where i: "first_active 0 keys = Some i" "ci = int i"
      by (auto simp: ci_def split: option.splits)
    then have "i < length keys" using first_active_Some [OF i(1)] by simp
    then have "usable (keys ! i) \<and> name_ok (keys ! i)" using g by simp
    then have "usable ((keys ! i)(''active'' \<mapsto> PBool False))
                 \<and> name_ok ((keys ! i)(''active'' \<mapsto> PBool False))" by simp
    from all_set_update [where P = "\<lambda>k. usable k \<and> name_ok k", OF g this, of i]
    show ?thesis using True i by (simp add: keys1_def)
  next
    case False
    then show ?thesis using g by (simp add: keys1_def)
  qed
  have "usable (keys1 ! nx) \<and> name_ok (keys1 ! nx)" using g1 nxl l1 by simp
  then have "usable ((keys1 ! nx)(''active'' \<mapsto> PBool True))
               \<and> name_ok ((keys1 ! nx)(''active'' \<mapsto> PBool True))" by simp
  from all_set_update [where P = "\<lambda>k. usable k \<and> name_ok k", OF g1 this, of nx]
  have g2: "\<forall>k \<in> set keys2. usable k \<and> name_ok k"
    by (simp add: keys2_def)
  have k2: "keys2 ! nx = (keys1 ! nx)(''active'' \<mapsto> PBool True)"
    using nxl l1 by (simp add: keys2_def)
  have act: "\<exists>k \<in> set keys2. is_active k"
  proof
    show "keys2 ! nx \<in> set keys2" using nxl l2 by simp
    show "is_active (keys2 ! nx)" by (simp add: k2)
  qed
  have tv: "truthy v"
  proof (cases "(keys2 ! nx) ''name''")
    case None
    then show ?thesis by (simp add: v_def)
  next
    case (Some w)
    have "name_ok (keys2 ! nx)" using g2 nxl l2 by simp
    then show ?thesis using Some by (simp add: v_def name_ok_def)
  qed
  have c2: "config s2 = (config s)(api_keys_key p \<mapsto> CItems keys2)"
    by (simp add: s2_def s1_def)
  then have ko: "keys_of p s2 = keys2" by (simp add: keys_of_def)
  have au: "auto_switch s2 = auto_switch s"
    by (cases p) (simp_all add: auto_switch_def c2)
  have "\<exists>es. s2 = emit es (s\<lparr>config := config s2\<rparr>) \<and> attempts_in es = 0 \<and> rotations_in es = 0"
  proof (cases "truthy nk \<and> p = Gemini")
    case True
    then have "s2 = emit [GenaiConfigure nk] (s\<lparr>config := config s2\<rparr>)"
      by (simp add: s2_def s1_def emit_def)
    then show ?thesis by (intro exI [of _ "[GenaiConfigure nk]"]) (simp add: attempts_in_def rotations_in_def)
  next
    case False
    then have "s2 = emit [] (s\<lparr>config := config s2\<rparr>)"
      by (cases p) (auto simp: s2_def s1_def emit_def)
    then show ?thesis by (intro exI [of _ "[]"]) (simp add: attempts_in_def rotations_in_def)
  qed
  then obtain es where es: "s2 = emit es (s\<lparr>config := config s2\<rparr>)"
    "attempts_in es = 0" "rotations_in es = 0" by blast
  show ?thesis
    apply (rule exI [of _ v])
    apply (rule exI [of _ s2])
    apply (rule exI [of _ es])
    using sw tv l2 act g2 au ko es(2,3) es(1) [symmetric]
    apply (simp only: keys_def [symmetric] simp_thms)
    done
qed


lemma keys_of_emit [simp]: "keys_of p (emit es s) = keys_of p s"
  by (simp add: keys_of_def)

lemma counts_append [simp]:
  "attempts_in (xs @ ys) = attempts_in xs + attempts_in ys"
  "rotations_in (xs @ ys) = rotations_in xs + rotations_in ys"
  by (simp_all add: attempts_in_def rotations_in_def)

lemma counts_Cons [simp]:
  "attempts_in (x # xs) = (if is_generate x then 1 else 0) + attempts_in xs"
  "rotations_in (x # xs) = (if x = SwitchCall then 1 else 0) + rotations_in xs"
  "attempts_in [] = 0" "rotations_in [] = 0"
  by (simp_all add: attempts_in_def rotations_in_def)

lemma counts_when_set [simp]:
  "attempts_in (when_set b ev) = (if b \<and> is_generate ev then 1 else 0)"
  "rotations_in (when_set b ev) = (if b \<and> ev = SwitchCall then 1 else 0)"
  by (simp_all add: when_set_def)






lemma str_lower_env_of [simp]: "str_lower (env_of b c) = ascii_lower"
  by (simp add: env_of_def)

lemma ascii_lower_examples:
  "ascii_lower ''429 Quota exceeded'' = ''429 quota exceeded''"
  "ascii_lower ''Resource exhausted'' = ''resource exhausted''"
  "ascii_lower ''504 Deadline Exceeded'' = ''504 deadline exceeded''"
  by (simp_all add: ascii_lower_def ascii_lower_char_def)

lemma is_quota_examples:
  "is_quota (env_of b c) ''429 Quota exceeded''"
  "\<not> is_quota (env_of b c) ''Resource exhausted''"
  "\<not> is_quota (env_of b c) ''504 Deadline Exceeded''"
  "contains ''exhausted'' (str_lower (env_of b c) ''Resource exhausted'')"
  by (simp_all add: is_quota_def ascii_lower_examples)

lemma classify_examples:
  "classify (env_of b c) (ApiError ''429 Quota exceeded'') = QuotaFriendly"
  "classify (env_of b c) (ApiError ''Resource exhausted'')
     = RawMsg (ApiError ''Resource exhausted'')"
  "classify (env_of b c) (ApiError ''504 Deadline Exceeded'') = TimeoutError"
  by (simp_all add: classify.simps ascii_lower_examples)

lemma ready_entered [simp]:
  "ready p (s\<lparr>next_event := n, current_task_event := c, genai_lock := l\<rparr>) K = ready p s K"
  by (simp add: ready_def keys_of_def auto_switch_def)

lemma ready_emit [simp]: "ready p (emit es s) K = ready p s K"
  by (simp add: ready_def)


lemma process_short_list:
  assumes "\<not> genai_lock s" and "cancel_at e = None"
    and "get_active_key (the_provider (call_of s name)) s = Some k" and "usable k"
    and "outcome (backend e 1) = Raised msg" and "is_quota e msg \<and> auto_switch s"
    and "length (keys_of (the_provider (call_of s name)) s) < 2"
  shows "process e name s =
           ([], s\<lparr>next_event := Suc (next_event s),
                  genai_lock := False, current_task_event := None,
                  trace := trace s @
                    [Logger (LogProcessing (combo (call_of s name)) name
                               (provider_name (the_provider (call_of s name)))),
                     Generate 1, SwitchCall]
                    @ when_set (has_on_log s) (OnLog (ErrorMsg (classify e (ApiError msg))))
                    @ [Logger (LogFinal (classify e (ApiError msg)))]\<rparr>)"
proof -
  let ?cl = "call_of s name"
  let ?s1 = "s\<lparr>next_event := Suc (next_event s), current_task_event := Some (next_event s),
               genai_lock := True\<rparr>"
  let ?s2 = "emit [Logger (LogProcessing (combo ?cl) (action_name ?cl)
                      (provider_name (the_provider ?cl)))] ?s1"
  let ?mx = "max (length (items_of (config ?s2) (api_keys_key (the_provider ?cl))) * 2) 1"
  have k: "get_active_key (the_provider ?cl) ?s2 = Some k"
    using assms(3) by (simp add: get_active_key_def)
  have o: "outcome (backend e (Suc 0)) = Raised msg" using assms(5) by simp
  have mx: "0 < ?mx" by simp
  have q: "is_quota e msg \<and> auto_switch ?s2" using assms(6) by (simp add: auto_switch_def)
  have "length (keys_of (the_provider ?cl) (emit [Generate (Suc 0), SwitchCall] ?s2)) < 2"
    using assms(7) by (simp add: keys_of_def)
  then have sw: "switch_to_next_key (the_provider ?cl) (emit [Generate (Suc 0), SwitchCall] ?s2)
                   = (None, emit [Generate (Suc 0), SwitchCall] ?s2)"
    by (rule switch_short)
  have lp: "attempt_loop e ?cl ?mx 0 0 ?s2
            = (Failed (ApiError msg), 0 + alive_polls (backend e (Suc 0)),
               emit [Generate (Suc 0), SwitchCall] ?s2)"
    by (simp only: trans [OF loop_raised [OF k assms(4,2) o mx, of 0] if_P [OF q]] sw
          prod.case option.case)
  have ns: "\<not> is_set_at e t" for t using assms(2) by simp
  show ?thesis
    unfolding process_unfold [OF assms(1)]
    apply (simp add: run_locked_def Let_def)
    apply (simp only: lp [simplified])
    apply (simp add: ns handler_def emit_def)
    done
qed


text \<open>Facts about the example data.\<close>

lemma name_ok_examples [simp]: "name_ok key_a" "name_ok key_b" "name_ok key_c" "name_ok key_d"
  by (simp_all add: name_ok_def key_a_def key_b_def key_c_def key_d_def)

lemma auto_switch_with_keys [simp]: "auto_switch (with_keys ks)"
  by (simp add: auto_switch_def with_keys_def idle_def)



lemma env_of_simps [simp]:
  "cancel_at (env_of b c) = c" "backend (env_of b c) = b"
  by (simp_all add: env_of_def)

lemma quota_backend_always [simp]: "quota_backend (env_of always_quota c)"
  by (simp add: quota_backend_def always_quota_def is_quota_examples)

lemma idle_fields [simp]:
  "\<not> genai_lock (with_keys ks)" "trace (with_keys ks) = []" "has_on_log (with_keys ks)"
  "has_on_error (with_keys ks)" "has_on_start (with_keys ks)" "has_on_key_switch (with_keys ks)"
  "has_on_success (with_keys ks)" "next_event (with_keys ks) = 0"
  by (simp_all add: with_keys_def idle_def)

section \<open>A backend that always reports an exhausted quota\<close>




section \<open>Which failures rotate and which end the loop\<close>

text \<open>
  C6. Let an attempt with a usable active key fail with an exception whose text is
  \<open>msg\<close>, with no cancellation. The retry loop takes the failure for a quota error
  exactly when the lowercased text contains \<open>429\<close> or \<open>quota\<close>. A failure that is no
  quota error, or any failure while auto-switch is off, ends the loop at once with that
  error and without a rotation. A quota error with auto-switch on calls
  \<open>switch_to_next_key\<close>: the loop goes on with the next attempt when a truthy label
  comes back, and ends with the error when the rotation returns \<open>None\<close>, as it does
  with fewer than two keys. Where the first attempt ends the loop in one of these ways,
  \<open>process\<close> logs the translated error and returns the empty string.
\<close>

theorem failure_classification:
  assumes "get_active_key (the_provider cl) s = Some k" and "usable k"
    and "cancel_at e = None" and "outcome (backend e (Suc a)) = Raised msg" and "a < mx"
  shows "is_quota e msg
           = (contains ''429'' (str_lower e msg) \<or> contains ''quota'' (str_lower e msg))
       \<and> (\<not> (is_quota e msg \<and> auto_switch s) \<longrightarrow>
            attempt_loop e cl mx a t s =
              (Failed (ApiError msg), t + alive_polls (backend e (Suc a)),
               emit [Generate (Suc a)] s))
       \<and> (is_quota e msg \<and> auto_switch s \<longrightarrow>
            (\<forall>s2. switch_to_next_key (the_provider cl) (emit [Generate (Suc a), SwitchCall] s)
                     = (None, s2) \<longrightarrow>
                   attempt_loop e cl mx a t s =
                     (Failed (ApiError msg), t + alive_polls (backend e (Suc a)), s2))
          \<and> (\<forall>v s2. switch_to_next_key (the_provider cl) (emit [Generate (Suc a), SwitchCall] s)
                       = (Some v, s2) \<and> truthy v \<longrightarrow>
                     attempt_loop e cl mx a t s =
                       attempt_loop e cl mx (Suc a) (t + alive_polls (backend e (Suc a)))
                         (emit (when_set (has_on_key_switch s2) (OnKeySwitch v)
                                @ when_set (has_on_log s2) (OnLog (SwitchedTo v))) s2)))
       \<and> (is_quota e msg \<and> auto_switch s \<and> length (keys_of (the_provider cl) s) < 2 \<longrightarrow>
            attempt_loop e cl mx a t s =
              (Failed (ApiError msg), t + alive_polls (backend e (Suc a)),
               emit [Generate (Suc a), SwitchCall] s))
       \<and> (cl = call_of s name \<and> \<not> genai_lock s \<and> a = 0
            \<and> \<not> (is_quota e msg \<and> auto_switch s) \<longrightarrow>
            process e name s =
              ([], s\<lparr>next_event := Suc (next_event s),
                     genai_lock := False, current_task_event := None,
                     trace := trace s @
                       [Logger (LogProcessing (combo cl) name (provider_name (the_provider cl))),
                        Generate 1]
                       @ when_set (has_on_log s) (OnLog (ErrorMsg (classify e (ApiError msg))))
                       @ [Logger (LogFinal (classify e (ApiError msg)))]\<rparr>))
       \<and> (cl = call_of s name \<and> \<not> genai_lock s \<and> a = 0
            \<and> is_quota e msg \<and> auto_switch s \<and> length (keys_of (the_provider cl) s) < 2 \<longrightarrow>
            process e name s =
              ([], s\<lparr>next_event := Suc (next_event s),
                     genai_lock := False, current_task_event := None,
                     trace := trace s @
                       [Logger (LogProcessing (combo cl) name (provider_name (the_provider cl))),
                        Generate 1, SwitchCall]
                       @ when_set (has_on_log s) (OnLog (ErrorMsg (classify e (ApiError msg))))
                       @ [Logger (LogFinal (classify e (ApiError msg)))]\<rparr>))"
proof (intro conjI impI allI)
  show "is_quota e msg
          = (contains ''429'' (str_lower e msg) \<or> contains ''quota'' (str_lower e msg))"
    by (simp add: is_quota_def Let_def)
next
  assume "\<not> (is_quota e msg \<and> auto_switch s)"
  then show "attempt_loop e cl mx a t s =
      (Failed (ApiError msg), t + alive_polls (backend e (Suc a)), emit [Generate (Suc a)] s)"
    by (rule trans [OF loop_raised [OF assms] if_not_P])
next
  fix s2
  assume q: "is_quota e msg \<and> auto_switch s"
    and sw: "switch_to_next_key (the_provider cl) (emit [Generate (Suc a), SwitchCall] s)
               = (None, s2)"
  show "attempt_loop e cl mx a t s =
      (Failed (ApiError msg), t + alive_polls (backend e (Suc a)), s2)"
    by (simp only: trans [OF loop_raised [OF assms] if_P [OF q]] sw prod.case option.case)
next
  fix v s2
  assume q: "is_quota e msg \<and> auto_switch s"
    and sw: "switch_to_next_key (the_provider cl) (emit [Generate (Suc a), SwitchCall] s)
               = (Some v, s2) \<and> truthy v"
  from sw have sw1: "switch_to_next_key (the_provider cl) (emit [Generate (Suc a), SwitchCall] s)
               = (Some v, s2)" and tv: "truthy v" by simp_all
  show "attempt_loop e cl mx a t s =
      attempt_loop e cl mx (Suc a) (t + alive_polls (backend e (Suc a)))
        (emit (when_set (has_on_key_switch s2) (OnKeySwitch v)
               @ when_set (has_on_log s2) (OnLog (SwitchedTo v))) s2)"
    by (simp only: trans [OF loop_raised [OF assms] if_P [OF q]] sw1 prod.case option.case
          tv if_True)
next
  assume h: "is_quota e msg \<and> auto_switch s \<and> length (keys_of (the_provider cl) s) < 2"
  then have "length (keys_of (the_provider cl) (emit [Generate (Suc a), SwitchCall] s)) < 2"
    by simp
  then have sw: "switch_to_next_key (the_provider cl) (emit [Generate (Suc a), SwitchCall] s)
                   = (None, emit [Generate (Suc a), SwitchCall] s)"
    by (rule switch_short)
  from h have q: "is_quota e msg \<and> auto_switch s" by simp
  show "attempt_loop e cl mx a t s =
      (Failed (ApiError msg), t + alive_polls (backend e (Suc a)),
       emit [Generate (Suc a), SwitchCall] s)"
    by (simp only: trans [OF loop_raised [OF assms] if_P [OF q]] sw prod.case option.case)
next
  assume h: "cl = call_of s name \<and> \<not> genai_lock s \<and> a = 0
             \<and> \<not> (is_quota e msg \<and> auto_switch s)"
  then have k: "get_active_key (the_provider (call_of s name)) s = Some k"
    and o: "outcome (backend e 1) = Raised msg"
    using assms(1,4) by simp_all
  from h have l: "\<not> genai_lock s" and q: "\<not> (is_quota e msg \<and> auto_switch s)" by simp_all
  show "process e name s =
      ([], s\<lparr>next_event := Suc (next_event s),
             genai_lock := False, current_task_event := None,
             trace := trace s @
               [Logger (LogProcessing (combo cl) name (provider_name (the_provider cl))),
                Generate 1]
               @ when_set (has_on_log s) (OnLog (ErrorMsg (classify e (ApiError msg))))
               @ [Logger (LogFinal (classify e (ApiError msg)))]\<rparr>)"
    using process_first_failure [OF l k assms(2,3) o q] h by simp
next
  assume h: "cl = call_of s name \<and> \<not> genai_lock s \<and> a = 0
             \<and> is_quota e msg \<and> auto_switch s \<and> length (keys_of (the_provider cl) s) < 2"
  then have k: "get_active_key (the_provider (call_of s name)) s = Some k"
    and o: "outcome (backend e 1) = Raised msg"
    and n: "length (keys_of (the_provider (call_of s name)) s) < 2"
    using assms(1,4) by auto
  from h have l: "\<not> genai_lock s" and q: "is_quota e msg \<and> auto_switch s" by simp_all
  show "process e name s =
      ([], s\<lparr>next_event := Suc (next_event s),
             genai_lock := False, current_task_event := None,
             trace := trace s @
               [Logger (LogProcessing (combo cl) name (provider_name (the_provider cl))),
                Generate 1, SwitchCall]
               @ when_set (has_on_log s) (OnLog (ErrorMsg (classify e (ApiError msg))))
               @ [Logger (LogFinal (classify e (ApiError msg)))]\<rparr>)"
    using process_short_list [OF l assms(3) k assms(2) o q n] h by simp
qed

text \<open>
  A failure whose text contains \<open>exhausted\<close>, but neither \<open>429\<close> nor \<open>quota\<close>, with
  auto-switch on and two keys: one attempt, no rotation, the error is logged as it is.
\<close>

theorem exhausted_is_not_rotated:
  "contains ''exhausted'' (str_lower (env_of always_exhausted None) ''Resource exhausted'')
   \<and> \<not> is_quota (env_of always_exhausted None) ''Resource exhausted''
   \<and> auto_switch (with_keys [key_a, key_b])
   \<and> process (env_of always_exhausted None) ''Fix'' (with_keys [key_a, key_b]) =
       ([], (with_keys [key_a, key_b])\<lparr>next_event := 1, genai_lock := False,
              current_task_event := None,
              trace := [Logger (LogProcessing [] ''Fix'' ''gemini''), Generate 1,
                        OnLog (ErrorMsg (RawMsg (ApiError ''Resource exhausted''))),
                        Logger (LogFinal (RawMsg (ApiError ''Resource exhausted'')))]\<rparr>)
   \<and> rotations_in (trace (snd (process (env_of always_exhausted None) ''Fix''
                                   (with_keys [key_a, key_b])))) = 0"
proof -
  let ?s = "with_keys [key_a, key_b]"
  let ?e = "env_of always_exhausted None"
  have k: "get_active_key (the_provider (call_of ?s ''Fix'')) ?s = Some key_b"
    by (simp add: call_of_with_keys)
  have o: "outcome (backend ?e 1) = Raised ''Resource exhausted''"
    by (simp add: always_exhausted_def)
  have q: "\<not> (is_quota ?e ''Resource exhausted'' \<and> auto_switch ?s)"
    by (simp add: is_quota_examples)
  have c: "cancel_at ?e = None" by simp
  have p: "process ?e ''Fix'' ?s =
       ([], ?s\<lparr>next_event := 1, genai_lock := False, current_task_event := None,
              trace := [Logger (LogProcessing [] ''Fix'' ''gemini''), Generate 1,
                        OnLog (ErrorMsg (RawMsg (ApiError ''Resource exhausted''))),
                        Logger (LogFinal (RawMsg (ApiError ''Resource exhausted'')))]\<rparr>)"
    using process_first_failure [OF idle_fields(1) k usable_examples(2) c o q]
    by (simp add: call_of_with_keys classify_examples when_set_def)
  show ?thesis
    using is_quota_examples(2,4) [of always_exhausted None]
    by (simp add: p)
qed

theorem failure_classification_witness:
  "get_active_key Gemini (with_keys [key_a, key_b]) = Some key_b \<and> usable key_b
   \<and> cancel_at (env_of always_timeout None) = None
   \<and> outcome (backend (env_of always_timeout None) (Suc 0)) = Raised ''504 Deadline Exceeded''
   \<and> \<not> is_quota (env_of always_timeout None) ''504 Deadline Exceeded''
   \<and> process (env_of always_timeout None) ''Fix'' (with_keys [key_a, key_b]) =
       ([], (with_keys [key_a, key_b])\<lparr>next_event := 1, genai_lock := False,
              current_task_event := None,
              trace := [Logger (LogProcessing [] ''Fix'' ''gemini''), Generate 1,
                        OnLog (ErrorMsg TimeoutError), Logger (LogFinal TimeoutError)]\<rparr>)
   \<and> outcome (backend (env_of always_quota None) (Suc 0)) = Raised ''429 Quota exceeded''
   \<and> is_quota (env_of always_quota None) ''429 Quota exceeded''
   \<and> auto_switch (with_keys [key_b])
   \<and> length (keys_of Gemini (with_keys [key_b])) < 2
   \<and> switch_to_next_key Gemini (emit [Generate (Suc 0), SwitchCall] (with_keys [key_b]))
       = (None, emit [Generate (Suc 0), SwitchCall] (with_keys [key_b]))
   \<and> attempt_loop (env_of always_quota None) (call_of (with_keys [key_b]) ''Fix'') 2 0 0
         (with_keys [key_b]) =
       (Failed (ApiError ''429 Quota exceeded''), 2,
        emit [Generate (Suc 0), SwitchCall] (with_keys [key_b]))
   \<and> process (env_of always_quota None) ''Fix'' (with_keys [key_b]) =
       ([], (with_keys [key_b])\<lparr>next_event := 1, genai_lock := False,
              current_task_event := None,
              trace := [Logger (LogProcessing [] ''Fix'' ''gemini''), Generate 1, SwitchCall,
                        OnLog (ErrorMsg QuotaFriendly), Logger (LogFinal QuotaFriendly)]\<rparr>)
   \<and> auto_switch (with_keys [key_a, key_b])
   \<and> (\<exists>v s2. switch_to_next_key Gemini
                 (emit [Generate (Suc 0), SwitchCall] (with_keys [key_a, key_b])) = (Some v, s2)
            \<and> truthy v
            \<and> attempt_loop (env_of always_quota None)
                 (call_of (with_keys [key_a, key_b]) ''Fix'') 4 0 0 (with_keys [key_a, key_b])
               = attempt_loop (env_of always_quota None)
                   (call_of (with_keys [key_a, key_b]) ''Fix'') 4 (Suc 0) 2
                   (emit (when_set (has_on_key_switch s2) (OnKeySwitch v)
                          @ when_set (has_on_log s2) (OnLog (SwitchedTo v))) s2))"
proof -
  let ?cl = "\<lparr>action_name = ''Fix'', combo = [], the_provider = Gemini, model_override = None\<rparr>"
  let ?q = "env_of always_quota None"
  have k: "get_active_key (the_provider ?cl) (with_keys [key_a, key_b]) = Some key_b" by simp
  have kb: "get_active_key (the_provider ?cl) (with_keys [key_b]) = Some key_b"
    by (simp add: get_active_key_def with_keys_def)
  have c: "cancel_at (env_of b None) = None" for b by simp
  have o: "outcome (backend (env_of always_timeout None) (Suc 0)) = Raised ''504 Deadline Exceeded''"
    by (simp add: always_timeout_def)
  have oq: "outcome (backend ?q (Suc 0)) = Raised ''429 Quota exceeded''"
    by (simp add: always_quota_def)
  have lt: "(0::nat) < 2" "(0::nat) < 4" by simp_all
  have al: "alive_polls (always_quota n) = 2" for n by (simp add: always_quota_def)
  have n1: "length (keys_of Gemini (with_keys [key_b])) < 2" by simp
  have sw1: "switch_to_next_key Gemini (emit [Generate (Suc 0), SwitchCall] (with_keys [key_b]))
       = (None, emit [Generate (Suc 0), SwitchCall] (with_keys [key_b]))"
    by (rule switch_short) simp
  note f1 = failure_classification [OF k usable_examples(2) c o lt(1), of 0 "''Fix''"]
  note f2 = failure_classification [OF kb usable_examples(2) c oq lt(1), of 0 "''Fix''"]
  note f3 = failure_classification [OF k usable_examples(2) c oq lt(2), of 0 "''Fix''"]
  have a: "attempt_loop ?q ?cl 2 0 0 (with_keys [key_b]) =
             (Failed (ApiError ''429 Quota exceeded''),
              0 + alive_polls (backend ?q (Suc 0)),
              emit [Generate (Suc 0), SwitchCall] (with_keys [key_b]))"
    using f2 [THEN conjunct2, THEN conjunct2, THEN conjunct2, THEN conjunct1]
    by (simp add: is_quota_examples)
  have p: "process (env_of always_timeout None) ''Fix'' (with_keys [key_a, key_b]) =
       ([], (with_keys [key_a, key_b])\<lparr>next_event := 1, genai_lock := False,
              current_task_event := None,
              trace := [Logger (LogProcessing [] ''Fix'' ''gemini''), Generate 1,
                        OnLog (ErrorMsg TimeoutError), Logger (LogFinal TimeoutError)]\<rparr>)"
    using f1 [THEN conjunct2, THEN conjunct2, THEN conjunct2, THEN conjunct2, THEN conjunct1]
    by (simp add: call_of_with_keys is_quota_examples classify_examples when_set_def)
  have pq: "process ?q ''Fix'' (with_keys [key_b]) =
       ([], (with_keys [key_b])\<lparr>next_event := 1, genai_lock := False,
              current_task_event := None,
              trace := [Logger (LogProcessing [] ''Fix'' ''gemini''), Generate 1, SwitchCall,
                        OnLog (ErrorMsg QuotaFriendly), Logger (LogFinal QuotaFriendly)]\<rparr>)"
    using f2 [THEN conjunct2, THEN conjunct2, THEN conjunct2, THEN conjunct2, THEN conjunct2]
    by (simp add: call_of_with_keys is_quota_examples classify_examples when_set_def)
  have two: "2 \<le> length (keys_of Gemini (emit [Generate (Suc 0), SwitchCall]
                                            (with_keys [key_a, key_b])))" by simp
  have good: "\<forall>k \<in> set (keys_of Gemini (emit [Generate (Suc 0), SwitchCall]
                                           (with_keys [key_a, key_b]))). usable k \<and> name_ok k"
    by simp
  from switch_many [OF two good]
  obtain v s2 where sw: "switch_to_next_key Gemini
      (emit [Generate (Suc 0), SwitchCall] (with_keys [key_a, key_b])) = (Some v, s2)"
    "truthy v" by blast
  have cont: "attempt_loop ?q ?cl 4 0 0 (with_keys [key_a, key_b])
               = attempt_loop ?q ?cl 4 (Suc 0) (0 + alive_polls (backend ?q (Suc 0)))
                   (emit (when_set (has_on_key_switch s2) (OnKeySwitch v)
                          @ when_set (has_on_log s2) (OnLog (SwitchedTo v))) s2)"
    using f3 [THEN conjunct2, THEN conjunct2, THEN conjunct1] sw
    by (simp add: is_quota_examples)
  have ex: "\<exists>v s2. switch_to_next_key Gemini
                 (emit [Generate (Suc 0), SwitchCall] (with_keys [key_a, key_b])) = (Some v, s2)
            \<and> truthy v
            \<and> attempt_loop ?q ?cl 4 0 0 (with_keys [key_a, key_b])
               = attempt_loop ?q ?cl 4 (Suc 0) 2
                   (emit (when_set (has_on_key_switch s2) (OnKeySwitch v)
                          @ when_set (has_on_log s2) (OnLog (SwitchedTo v))) s2)"
    using sw cont by (simp add: al numeral_2_eq_2)
  show ?thesis
    using k kb ex
    by (simp add: a p pq al sw1 is_quota_examples call_of_with_keys always_timeout_def
          always_quota_def)
qed

end
